theory Spec2Isabelle
  imports Main "HOL-Library.Multiset"
begin

section \<open>Errors\<close>

text \<open>
  The exceptions the modelled code can raise. \<open>Exception msg\<close> is Python's
  \<^verbatim>\<open>raise Exception(msg)\<close>; the frontiers raise it with the message
  \<^verbatim>\<open>"empty frontier"\<close>. \<open>KeyError\<close> is a failed dictionary lookup,
  \<open>ValueError\<close> is \<^verbatim>\<open>min\<close> of an empty iterable and \<open>IndexError\<close> is
  \<^verbatim>\<open>list.pop\<close> out of range.
\<close>

datatype error = Exception string | KeyError | ValueError | IndexError

section \<open>util.py: Node and the three frontiers\<close>

text \<open>
  \<^verbatim>\<open>class Node\<close>: the fields \<^verbatim>\<open>state, parent, action, g, f\<close>. The parent
  is a reference to another node or \<^verbatim>\<open>None\<close>; the fields \<^verbatim>\<open>g\<close> and
  \<^verbatim>\<open>f\<close> are the selectors \<open>g_cost\<close> and \<open>f_cost\<close> (Python integers).
\<close>

datatype ('s, 'a) node =
  Node (state: 's) (parent: "('s, 'a) node option") (action: "'a option")
       (g_cost: int) (f_cost: int)

type_synonym ('s, 'a) frontier = "('s, 'a) node list"

text \<open>
  \<^verbatim>\<open>add\<close>, \<^verbatim>\<open>contains_state\<close> and \<^verbatim>\<open>empty\<close> have the same body in
  \<^verbatim>\<open>StackFrontier\<close> (inherited by \<^verbatim>\<open>QueueFrontier\<close>) and in
  \<^verbatim>\<open>AStarFrontier\<close>: append, \<^verbatim>\<open>any(node.state == state ...)\<close> and
  \<^verbatim>\<open>len(self.frontier) == 0\<close>.
\<close>

definition add :: "('s, 'a) frontier \<Rightarrow> ('s, 'a) node \<Rightarrow> ('s, 'a) frontier" where
  "add fr node = fr @ [node]"

definition contains_state :: "('s, 'a) frontier \<Rightarrow> 's \<Rightarrow> bool" where
  "contains_state fr s = list_ex (\<lambda>node. state node = s) fr"

definition empty_frontier :: "('s, 'a) frontier \<Rightarrow> bool" where
  "empty_frontier fr = (length fr = 0)"

text \<open>\<^verbatim>\<open>StackFrontier.remove\<close>: the last node, and the list without it.\<close>

definition StackFrontier_remove ::
  "('s, 'a) frontier \<Rightarrow> error + (('s, 'a) node \<times> ('s, 'a) frontier)" where
  "StackFrontier_remove fr =
     (if empty_frontier fr then Inl (Exception ''empty frontier'')
      else Inr (last fr, butlast fr))"

text \<open>\<^verbatim>\<open>QueueFrontier.remove\<close>: the first node, and the list without it.\<close>

definition QueueFrontier_remove ::
  "('s, 'a) frontier \<Rightarrow> error + (('s, 'a) node \<times> ('s, 'a) frontier)" where
  "QueueFrontier_remove fr =
     (if empty_frontier fr then Inl (Exception ''empty frontier'')
      else Inr (hd fr, tl fr))"

text \<open>
  Python's \<^verbatim>\<open>min(iterable, key=...)\<close>: the first item is the running best and a
  later item replaces it only when its key is strictly smaller; an empty iterable
  raises \<^verbatim>\<open>ValueError\<close>.
\<close>

fun py_min_from :: "('x \<Rightarrow> int) \<Rightarrow> 'x \<Rightarrow> 'x list \<Rightarrow> 'x" where
  "py_min_from key best [] = best"
| "py_min_from key best (x # xs) =
     py_min_from key (if key x < key best then x else best) xs"

definition py_min :: "('x \<Rightarrow> int) \<Rightarrow> 'x list \<Rightarrow> error + 'x" where
  "py_min key xs =
     (case xs of [] \<Rightarrow> Inl ValueError | x # rest \<Rightarrow> Inr (py_min_from key x rest))"

text \<open>\<^verbatim>\<open>list.pop(i)\<close> for a non-negative index.\<close>

definition pop :: "'x list \<Rightarrow> nat \<Rightarrow> error + ('x \<times> 'x list)" where
  "pop xs i =
     (if i < length xs then Inr (xs ! i, take i xs @ drop (Suc i) xs)
      else Inl IndexError)"

text \<open>
  \<^verbatim>\<open>AStarFrontier.remove\<close>: the index of the lowest \<^verbatim>\<open>f\<close> is
  \<^verbatim>\<open>min(range(len(self.frontier)), key=lambda i: self.frontier[i].f)\<close>, and the
  node at that index is popped.
\<close>

definition AStarFrontier_remove ::
  "('s, 'a) frontier \<Rightarrow> error + (('s, 'a) node \<times> ('s, 'a) frontier)" where
  "AStarFrontier_remove fr =
     (if empty_frontier fr then Inl (Exception ''empty frontier'')
      else case py_min (\<lambda>i. f_cost (fr ! i)) [0..<length fr] of
             Inl e \<Rightarrow> Inl e
           | Inr lowest_index \<Rightarrow> pop fr lowest_index)"

text \<open>The three selection policies, named as the specification names them.\<close>

datatype policy = LIFO | FIFO | Priority

fun frontier_remove :: "policy \<Rightarrow> ('s, 'a) frontier \<Rightarrow> error + (('s, 'a) node \<times> ('s, 'a) frontier)" where
  "frontier_remove LIFO = StackFrontier_remove"
| "frontier_remove FIFO = QueueFrontier_remove"
| "frontier_remove Priority = AStarFrontier_remove"

section \<open>degrees.py: the search loop\<close>

text \<open>
  The graph enters the search through \<^verbatim>\<open>neighbors_for_person\<close>. Its result is a
  Python set, iterated by the \<^verbatim>\<open>for\<close> loop in an order the language does not
  fix, and it raises \<^verbatim>\<open>KeyError\<close> for an unknown id. The search is therefore
  modelled over a function \<open>nbrs\<close> that gives, for a state, either an error or the
  (action, state) pairs in the order the loop visits them; every theorem holds for
  every such order.
\<close>

type_synonym ('s, 'a) neighbors = "'s \<Rightarrow> error + ('a \<times> 's) list"

type_synonym ('s, 'a) path = "('a option \<times> 's) list"

text \<open>
  Path reconstruction:
  \<^verbatim>\<open>while node.parent is not None: path.append((node.action, node.state)); node = node.parent\<close>
  followed by \<^verbatim>\<open>path.reverse()\<close>.
\<close>

fun path_back :: "('s, 'a) node \<Rightarrow> ('s, 'a) path" where
  "path_back (Node s None a gc fc) = []"
| "path_back (Node s (Some p) a gc fc) = (a, s) # path_back p"

definition reconstruct :: "('s, 'a) node \<Rightarrow> ('s, 'a) path" where
  "reconstruct node = rev (path_back node)"

text \<open>
  The construction of a child node. \<^verbatim>\<open>shortest_path\<close> leaves \<^verbatim>\<open>g\<close> and
  \<^verbatim>\<open>f\<close> at their default 0; \<^verbatim>\<open>shortest_path_A_STAR\<close> sets
  \<^verbatim>\<open>g = node.g + 1\<close> and \<^verbatim>\<open>f = g + h(person_id)\<close>. The heuristic
  \<open>h\<close> is a parameter with integer values; the only one the program passes is the
  constant 0.
\<close>

definition plain_child :: "('s, 'a) node \<Rightarrow> 'a \<Rightarrow> 's \<Rightarrow> ('s, 'a) node" where
  "plain_child node movie_id person_id = Node person_id (Some node) (Some movie_id) 0 0"

definition astar_child :: "('s \<Rightarrow> int) \<Rightarrow> ('s, 'a) node \<Rightarrow> 'a \<Rightarrow> 's \<Rightarrow> ('s, 'a) node" where
  "astar_child h node movie_id person_id =
     (let child_g = g_cost node + 1; child_f = child_g + h person_id
      in Node person_id (Some node) (Some movie_id) child_g child_f)"

text \<open>
  The inner \<^verbatim>\<open>for movie_id, person_id in neighbors_for_person(node.state)\<close> loop:
  a neighbour is added when its state is neither in the frontier nor explored.
\<close>

fun expand ::
  "(('s, 'a) node \<Rightarrow> 'a \<Rightarrow> 's \<Rightarrow> ('s, 'a) node) \<Rightarrow> ('s, 'a) node \<Rightarrow> 's set \<Rightarrow>
   ('a \<times> 's) list \<Rightarrow> ('s, 'a) frontier \<Rightarrow> ('s, 'a) frontier" where
  "expand mk node ex [] fr = fr"
| "expand mk node ex ((movie_id, person_id) # rest) fr =
     expand mk node ex rest
       (if \<not> contains_state fr person_id \<and> person_id \<notin> ex
        then add fr (mk node movie_id person_id) else fr)"

text \<open>The local variables of one search: the frontier, the explored set and the counter.\<close>

record ('s, 'a) search_state =
  frontier :: "('s, 'a) frontier"
  explored :: "'s set"
  nodes_explored :: nat

text \<open>
  The \<^verbatim>\<open>while not frontier.empty()\<close> loop shared by \<^verbatim>\<open>shortest_path\<close> and
  \<^verbatim>\<open>shortest_path_A_STAR\<close>, which differ in the frontier class (\<open>rm\<close>) and in
  the child they build (\<open>mk\<close>). The loop may run forever on an infinite graph, so the
  result is an option: \<open>None\<close> is a loop that never returns. A returned value is
  either the exception that escaped, or the path (\<^verbatim>\<open>None\<close> for "no path") with
  the local variables as they are at the \<^verbatim>\<open>return\<close>.
\<close>

partial_function (option) search_loop ::
  "(('s, 'a) frontier \<Rightarrow> error + (('s, 'a) node \<times> ('s, 'a) frontier)) \<Rightarrow>
   (('s, 'a) node \<Rightarrow> 'a \<Rightarrow> 's \<Rightarrow> ('s, 'a) node) \<Rightarrow>
   ('s, 'a) neighbors \<Rightarrow> 's \<Rightarrow> ('s, 'a) search_state \<Rightarrow>
   (error + (('s, 'a) path option \<times> ('s, 'a) search_state)) option" where
  "search_loop rm mk nbrs target st =
     (if empty_frontier (frontier st) then Some (Inr (None, st))
      else case rm (frontier st) of
             Inl e \<Rightarrow> Some (Inl e)
           | Inr (node, fr) \<Rightarrow>
               if state node = target
               then Some (Inr (Some (reconstruct node),
                               st\<lparr>frontier := fr, nodes_explored := nodes_explored st + 1\<rparr>))
               else case nbrs (state node) of
                      Inl e \<Rightarrow> Some (Inl e)
                    | Inr ns \<Rightarrow>
                        search_loop rm mk nbrs target
                          \<lparr>frontier = expand mk node (insert (state node) (explored st)) ns fr,
                           explored = insert (state node) (explored st),
                           nodes_explored = nodes_explored st + 1\<rparr>)"

definition initial_state :: "('s, 'a) node \<Rightarrow> ('s, 'a) search_state" where
  "initial_state start = \<lparr>frontier = add [] start, explored = {}, nodes_explored = 0\<rparr>"

text \<open>What the caller of a search sees: the exception, or the returned path.\<close>

definition returned ::
  "(error + (('s, 'a) path option \<times> ('s, 'a) search_state)) option \<Rightarrow>
   (error + ('s, 'a) path option) option" where
  "returned r = map_option (map_sum id fst) r"

text \<open>
  \<^verbatim>\<open>shortest_path(source, target)\<close> with the frontier class as a parameter: the
  source instantiates \<^verbatim>\<open>StackFrontier()\<close>; replacing that one constructor by
  \<^verbatim>\<open>QueueFrontier()\<close> gives the FIFO search.
\<close>

definition run_search ::
  "policy \<Rightarrow> ('s, 'a) neighbors \<Rightarrow> 's \<Rightarrow> 's \<Rightarrow>
   (error + (('s, 'a) path option \<times> ('s, 'a) search_state)) option" where
  "run_search pol nbrs source target =
     search_loop (frontier_remove pol) plain_child nbrs target
       (initial_state (Node source None None 0 0))"

definition shortest_path ::
  "('s, 'a) neighbors \<Rightarrow> 's \<Rightarrow> 's \<Rightarrow> (error + ('s, 'a) path option) option" where
  "shortest_path nbrs source target = returned (run_search LIFO nbrs source target)"

definition shortest_path_FIFO ::
  "('s, 'a) neighbors \<Rightarrow> 's \<Rightarrow> 's \<Rightarrow> (error + ('s, 'a) path option) option" where
  "shortest_path_FIFO nbrs source target = returned (run_search FIFO nbrs source target)"

text \<open>\<^verbatim>\<open>shortest_path_A_STAR(source, target, h)\<close>.\<close>

definition run_A_STAR ::
  "('s, 'a) neighbors \<Rightarrow> 's \<Rightarrow> 's \<Rightarrow> ('s \<Rightarrow> int) \<Rightarrow>
   (error + (('s, 'a) path option \<times> ('s, 'a) search_state)) option" where
  "run_A_STAR nbrs source target h =
     search_loop AStarFrontier_remove (astar_child h) nbrs target
       (initial_state (Node source None None 0 (h source)))"

definition shortest_path_A_STAR ::
  "('s, 'a) neighbors \<Rightarrow> 's \<Rightarrow> 's \<Rightarrow> ('s \<Rightarrow> int) \<Rightarrow> (error + ('s, 'a) path option) option" where
  "shortest_path_A_STAR nbrs source target h = returned (run_A_STAR nbrs source target h)"

section \<open>degrees.py: the loaded data and \<^verbatim>\<open>neighbors_for_person\<close>\<close>

text \<open>
  The global dictionaries \<^verbatim>\<open>people\<close> and \<^verbatim>\<open>movies\<close> map an id to a
  dictionary with the keys \<^verbatim>\<open>name, birth, movies\<close> and
  \<^verbatim>\<open>title, year, stars\<close>. Ids and the other CSV fields are strings.
\<close>

record person =
  person_name :: string
  person_birth :: string
  person_movies :: "string set"

record movie =
  movie_title :: string
  movie_year :: string
  movie_stars :: "string set"

type_synonym people_dict = "string \<rightharpoonup> person"
type_synonym movies_dict = "string \<rightharpoonup> movie"

text \<open>
  \<^verbatim>\<open>load_data\<close> on the rows that \<^verbatim>\<open>csv.DictReader\<close> yields (reading and
  parsing the files is not modelled, nor is the \<^verbatim>\<open>names\<close> dictionary, which
  the search does not read). A row of \<^verbatim>\<open>people.csv\<close> is (id, name, birth), a row
  of \<^verbatim>\<open>movies.csv\<close> is (id, title, year), a row of \<^verbatim>\<open>stars.csv\<close> is
  (person_id, movie_id).
\<close>

definition load_person :: "string \<times> string \<times> string \<Rightarrow> people_dict \<Rightarrow> people_dict" where
  "load_person row people =
     (case row of (pid, nm, b) \<Rightarrow>
        people(pid \<mapsto> \<lparr>person_name = nm, person_birth = b, person_movies = {}\<rparr>))"

definition load_movie :: "string \<times> string \<times> string \<Rightarrow> movies_dict \<Rightarrow> movies_dict" where
  "load_movie row movies =
     (case row of (mid, t, y) \<Rightarrow>
        movies(mid \<mapsto> \<lparr>movie_title = t, movie_year = y, movie_stars = {}\<rparr>))"

text \<open>
  One row of \<^verbatim>\<open>stars.csv\<close>, inside \<^verbatim>\<open>try: ... except KeyError: pass\<close>:
  \<^verbatim>\<open>people[row["person_id"]]["movies"].add(row["movie_id"])\<close> runs first, and only
  then \<^verbatim>\<open>movies[row["movie_id"]]["stars"].add(row["person_id"])\<close>. A
  \<^verbatim>\<open>KeyError\<close> of the first statement leaves both dictionaries as they were; a
  \<^verbatim>\<open>KeyError\<close> of the second leaves the first statement's update in place.
\<close>

definition load_star ::
  "string \<times> string \<Rightarrow> people_dict \<times> movies_dict \<Rightarrow> people_dict \<times> movies_dict" where
  "load_star row db =
     (case row of (person_id, movie_id) \<Rightarrow>
      case db of (people, movies) \<Rightarrow>
        (case people person_id of
           None \<Rightarrow> (people, movies)
         | Some p \<Rightarrow>
             let people' = people(person_id \<mapsto> p\<lparr>person_movies := insert movie_id (person_movies p)\<rparr>)
             in (case movies movie_id of
                   None \<Rightarrow> (people', movies)
                 | Some m \<Rightarrow>
                     (people', movies(movie_id \<mapsto> m\<lparr>movie_stars := insert person_id (movie_stars m)\<rparr>)))))"

definition load_data ::
  "(string \<times> string \<times> string) list \<Rightarrow> (string \<times> string \<times> string) list \<Rightarrow>
   (string \<times> string) list \<Rightarrow> people_dict \<times> movies_dict" where
  "load_data people_rows movie_rows star_rows =
     fold load_star star_rows
       (fold load_person people_rows Map.empty, fold load_movie movie_rows Map.empty)"

text \<open>
  \<^verbatim>\<open>neighbors_for_person\<close>: \<^verbatim>\<open>people[person_id]\<close> and every
  \<^verbatim>\<open>movies[movie_id]\<close> raise \<^verbatim>\<open>KeyError\<close> on a missing key; otherwise the
  result is the set of all pairs (movie_id, star) over the person's movies.
\<close>

definition neighbors_for_person ::
  "people_dict \<Rightarrow> movies_dict \<Rightarrow> string \<Rightarrow> error + (string \<times> string) set" where
  "neighbors_for_person people movies person_id =
     (case people person_id of
        None \<Rightarrow> Inl KeyError
      | Some p \<Rightarrow>
          if \<exists>movie_id \<in> person_movies p. movies movie_id = None then Inl KeyError
          else Inr (\<Union>movie_id \<in> person_movies p.
                      (\<lambda>star. (movie_id, star)) ` (case movies movie_id of
                                                      None \<Rightarrow> {}
                                                    | Some m \<Rightarrow> movie_stars m)))"

text \<open>
  The two dictionaries agree when every movie of a person that is a key of
  \<^verbatim>\<open>movies\<close> lists that person among its stars.
\<close>

definition consistent :: "people_dict \<times> movies_dict \<Rightarrow> bool" where
  "consistent db = (\<forall>pid p m mv. fst db pid = Some p \<longrightarrow> m \<in> person_movies p \<longrightarrow>
      snd db m = Some mv \<longrightarrow> pid \<in> movie_stars mv)"

section \<open>Sequences of frontier operations\<close>

text \<open>
  A caller's sequence of \<^verbatim>\<open>add\<close> and \<^verbatim>\<open>remove\<close> calls on one frontier. Beside
  the frontier the run keeps the multiset of the nodes added and not yet handed back
  by \<^verbatim>\<open>remove\<close>; an exception ends the run.
\<close>

datatype ('s, 'a) frontier_op = Add "('s, 'a) node" | Remove

fun run_ops ::
  "policy \<Rightarrow> ('s, 'a) frontier_op list \<Rightarrow> ('s, 'a) frontier \<times> ('s, 'a) node multiset \<Rightarrow>
   error + (('s, 'a) frontier \<times> ('s, 'a) node multiset)" where
  "run_ops pol [] (fr, held) = Inr (fr, held)"
| "run_ops pol (Add node # ops) (fr, held) = run_ops pol ops (add fr node, add_mset node held)"
| "run_ops pol (Remove # ops) (fr, held) =
     (case frontier_remove pol fr of
        Inl e \<Rightarrow> Inl e
      | Inr (node, fr') \<Rightarrow> run_ops pol ops (fr', held - {#node#}))"

section \<open>Graphs, paths and distance\<close>

text \<open>
  The graph that a neighbour function describes: there is an edge labelled \<open>a\<close> from
  \<open>s\<close> to \<open>t\<close> when \<open>(a, t)\<close> is among the neighbours of \<open>s\<close>. A path is a list of
  (action, state) pairs as the search returns it: each pair is an edge out of the state
  before it, starting at the source.
\<close>

definition edge :: "('s, 'a) neighbors \<Rightarrow> 's \<Rightarrow> 'a \<Rightarrow> 's \<Rightarrow> bool" where
  "edge nbrs s a t = (case nbrs s of Inl e \<Rightarrow> False | Inr ns \<Rightarrow> (a, t) \<in> set ns)"

fun valid_path :: "('s, 'a) neighbors \<Rightarrow> 's \<Rightarrow> ('s, 'a) path \<Rightarrow> bool" where
  "valid_path nbrs s [] = True"
| "valid_path nbrs s ((a, t) # rest) =
     (case a of None \<Rightarrow> False | Some m \<Rightarrow> edge nbrs s m t \<and> valid_path nbrs t rest)"

definition path_end :: "'s \<Rightarrow> ('s, 'a) path \<Rightarrow> 's" where
  "path_end s p = (if p = [] then s else snd (last p))"

definition connects :: "('s, 'a) neighbors \<Rightarrow> 's \<Rightarrow> ('s, 'a) path \<Rightarrow> 's \<Rightarrow> bool" where
  "connects nbrs s p t = (valid_path nbrs s p \<and> path_end s p = t)"

definition reachable :: "('s, 'a) neighbors \<Rightarrow> 's \<Rightarrow> 's \<Rightarrow> bool" where
  "reachable nbrs s t = (\<exists>p. connects nbrs s p t)"

text \<open>The graph distance: the least number of edges of a path from \<open>s\<close> to \<open>t\<close>.\<close>

definition distance :: "('s, 'a) neighbors \<Rightarrow> 's \<Rightarrow> 's \<Rightarrow> nat" where
  "distance nbrs s t = (LEAST k. \<exists>p. connects nbrs s p t \<and> length p = k)"

text \<open>
  A finite graph on the vertex set \<open>V\<close>: every vertex has its neighbours (no
  \<^verbatim>\<open>KeyError\<close>), and they are vertices. It is connected when every vertex is
  reachable from every vertex.
\<close>

definition finite_graph :: "('s, 'a) neighbors \<Rightarrow> 's set \<Rightarrow> bool" where
  "finite_graph nbrs V =
     (finite V \<and> (\<forall>v\<in>V. case nbrs v of Inl e \<Rightarrow> False | Inr ns \<Rightarrow> snd ` set ns \<subseteq> V))"

definition connected_graph :: "('s, 'a) neighbors \<Rightarrow> 's set \<Rightarrow> bool" where
  "connected_graph nbrs V = (\<forall>u\<in>V. \<forall>v\<in>V. reachable nbrs u v)"

section \<open>Invariants of the search loop\<close>

text \<open>
  What a frontier's \<^verbatim>\<open>remove\<close> must do for the loop: on a non-empty frontier it
  returns the node at some index and the frontier without that index. What the child
  construction must do: the child has the neighbour's state, the expanded node as its
  parent and the edge's label as its action.
\<close>

definition removes_one ::
  "(('s, 'a) frontier \<Rightarrow> error + (('s, 'a) node \<times> ('s, 'a) frontier)) \<Rightarrow> bool" where
  "removes_one rm =
     (\<forall>fr. fr \<noteq> [] \<longrightarrow>
        (\<exists>i<length fr. rm fr = Inr (fr ! i, take i fr @ drop (Suc i) fr)))"

definition makes_child :: "(('s, 'a) node \<Rightarrow> 'a \<Rightarrow> 's \<Rightarrow> ('s, 'a) node) \<Rightarrow> bool" where
  "makes_child mk =
     (\<forall>node m p. state (mk node m p) = p \<and> parent (mk node m p) = Some node \<and>
                 action (mk node m p) = Some m)"

text \<open>The state of the loop after expanding \<open>node\<close>, as the loop body builds it.\<close>

definition next_state ::
  "(('s, 'a) node \<Rightarrow> 'a \<Rightarrow> 's \<Rightarrow> ('s, 'a) node) \<Rightarrow> ('s, 'a) node \<Rightarrow> ('a \<times> 's) list \<Rightarrow>
   ('s, 'a) frontier \<Rightarrow> ('s, 'a) search_state \<Rightarrow> ('s, 'a) search_state" where
  "next_state mk node ns fr st =
     \<lparr>frontier = expand mk node (insert (state node) (explored st)) ns fr,
      explored = insert (state node) (explored st),
      nodes_explored = nodes_explored st + 1\<rparr>"

definition frontier_states :: "('s, 'a) search_state \<Rightarrow> 's set" where
  "frontier_states st = state ` set (frontier st)"

text \<open>
  The invariant of every search: frontier states are pairwise distinct and unexplored;
  every frontier node's parent chain is a path from the source to its state; explored
  states are reachable; the source has been discovered; every neighbour of an explored
  state has been discovered; the target is not explored.
\<close>

definition search_inv ::
  "('s, 'a) neighbors \<Rightarrow> 's \<Rightarrow> 's \<Rightarrow> ('s, 'a) search_state \<Rightarrow> bool" where
  "search_inv nbrs source target st =
     (distinct (map state (frontier st)) \<and>
      frontier_states st \<inter> explored st = {} \<and>
      (\<forall>n\<in>set (frontier st). connects nbrs source (reconstruct n) (state n)) \<and>
      (\<forall>v\<in>explored st. reachable nbrs source v) \<and>
      source \<in> explored st \<union> frontier_states st \<and>
      (\<forall>u\<in>explored st. \<forall>a v. edge nbrs u a v \<longrightarrow> v \<in> explored st \<union> frontier_states st) \<and>
      target \<notin> explored st)"

text \<open>
  The invariant of the FIFO search at level \<open>d\<close>: a frontier node's depth (the length
  of its parent chain) is the distance of its state and is \<open>d\<close> or \<open>d + 1\<close>, depths
  do not decrease along the queue, and every state at distance at most \<open>d\<close> has been
  discovered.
\<close>

definition depth :: "('s, 'a) node \<Rightarrow> nat" where
  "depth node = length (path_back node)"

definition bfs_level ::
  "('s, 'a) neighbors \<Rightarrow> 's \<Rightarrow> nat \<Rightarrow> ('s, 'a) search_state \<Rightarrow> bool" where
  "bfs_level nbrs source d st =
     ((\<forall>n\<in>set (frontier st). depth n = distance nbrs source (state n) \<and>
                              d \<le> depth n \<and> depth n \<le> d + 1) \<and>
      sorted (map depth (frontier st)) \<and>
      (\<forall>v. reachable nbrs source v \<and> distance nbrs source v \<le> d \<longrightarrow>
           v \<in> explored st \<union> frontier_states st))"

text \<open>
  Forgetting the cost fields of a node and of its ancestors: what a node of
  \<^verbatim>\<open>shortest_path_A_STAR\<close> looks like to \<^verbatim>\<open>shortest_path\<close>.
\<close>

fun erase :: "('s, 'a) node \<Rightarrow> ('s, 'a) node" where
  "erase (Node s None a gc fc) = Node s None a 0 0"
| "erase (Node s (Some p) a gc fc) = Node s (Some (erase p)) a 0 0"

definition erase_state :: "('s, 'a) search_state \<Rightarrow> ('s, 'a) search_state" where
  "erase_state st = st\<lparr>frontier := map erase (frontier st)\<rparr>"

text \<open>The same for what the loop returns.\<close>

definition erase_result ::
  "error + (('s, 'a) path option \<times> ('s, 'a) search_state) \<Rightarrow>
   error + (('s, 'a) path option \<times> ('s, 'a) search_state)" where
  "erase_result r = map_sum id (map_prod id erase_state) r"

text \<open>
  The invariant of the priority search with the zero heuristic: the costs \<^verbatim>\<open>g\<close>
  and \<^verbatim>\<open>f\<close> of a frontier node are its depth, depths do not decrease along the
  frontier, and no depth exceeds the first node's by more than one.
\<close>

definition astar_level :: "('s, 'a) search_state \<Rightarrow> bool" where
  "astar_level st =
     ((\<forall>n\<in>set (frontier st). g_cost n = int (depth n) \<and> f_cost n = int (depth n)) \<and>
      sorted (map depth (frontier st)) \<and>
      (\<forall>n\<in>set (frontier st). depth n \<le> Suc (depth (hd (frontier st)))))"

section \<open>An example graph\<close>

text \<open>
  The scenario of the specification: \<open>A\<close> and \<open>B\<close> share the movie \<open>m1\<close>,
  \<open>B\<close> and \<open>C\<close> share \<open>m2\<close>, \<open>A\<close> and \<open>C\<close> share \<open>m3\<close>, and
  \<open>D\<close> is a person without movies. The neighbours are listed as
  \<^verbatim>\<open>neighbors_for_person\<close> gives them, each person being a star of their own
  movies; any other id raises \<^verbatim>\<open>KeyError\<close>.
\<close>

definition example_graph :: "(string, string) neighbors" where
  "example_graph s =
     (if s = ''A'' then Inr [(''m1'', ''A''), (''m1'', ''B''), (''m3'', ''A''), (''m3'', ''C'')]
      else if s = ''B'' then Inr [(''m1'', ''A''), (''m1'', ''B''), (''m2'', ''B''), (''m2'', ''C'')]
      else if s = ''C'' then Inr [(''m2'', ''B''), (''m2'', ''C''), (''m3'', ''A''), (''m3'', ''C'')]
      else if s = ''D'' then Inr []
      else Inl KeyError)"

section \<open>The frontiers\<close>

subsection \<open>Python's \<^verbatim>\<open>min\<close> and the priority frontier\<close>

lemma py_min_from_mem: "py_min_from key best xs \<in> set (best # xs)"
  by (induction xs arbitrary: best) auto

lemma py_min_from_le: "x \<in> set (best # xs) \<Longrightarrow> key (py_min_from key best xs) \<le> key x"
proof (induction xs arbitrary: best x)
  case Nil then show ?case by simp
next
  case (Cons y ys)
  have *: "key (py_min_from key (if key y < key best then y else best) ys) \<le> key (if key y < key best then y else best)"
    using Cons.IH[of "if key y < key best then y else best" "if key y < key best then y else best"] by simp
  show ?case
  proof (cases "x \<in> set ys")
    case True
    then show ?thesis using Cons.IH[of x "if key y < key best then y else best"] by simp
  next
    case False
    with Cons.prems have "x = best \<or> x = y" by auto
    then show ?thesis using * by (auto split: if_splits)
  qed
qed

text \<open>On the index range, the chosen index is the first one of minimal key.\<close>
lemma py_min_from_first:
  "sorted (best # xs) \<Longrightarrow> distinct (best # xs) \<Longrightarrow> j \<in> set (best # xs) \<Longrightarrow>
   j < py_min_from key best xs \<Longrightarrow> key (py_min_from key best xs) < key (j::nat)"
proof (induction xs arbitrary: best j)
  case Nil then show ?case by simp
next
  case (Cons y ys)
  let ?b = "if key y < key best then y else best"
  have s: "sorted (?b # ys)" "distinct (?b # ys)" using Cons.prems(1,2) by auto
  have r: "py_min_from key best (y # ys) = py_min_from key ?b ys" by simp
  show ?case
  proof (cases "j \<in> set (?b # ys)")
    case True
    then show ?thesis using Cons.IH[OF s True] Cons.prems(4) unfolding r by simp
  next
    case False
    with Cons.prems(3) have jc: "(j = best \<and> key y < key best) \<or> (j = y \<and> \<not> key y < key best)" by (auto split: if_splits)
    have "key (py_min_from key ?b ys) \<le> key ?b" by (rule py_min_from_le) simp
    moreover have "py_min_from key ?b ys \<in> set (?b # ys)" by (rule py_min_from_mem)
    ultimately have le: "key (py_min_from key ?b ys) \<le> key ?b" and mem: "py_min_from key ?b ys \<in> set (?b # ys)" by auto
    from jc show ?thesis
    proof
      assume "j = best \<and> key y < key best"
      then show ?thesis using le unfolding r by auto
    next
      assume a: "j = y \<and> \<not> key y < key best"
      then have b: "?b = best" by simp
      have "best < y" using Cons.prems(1,2) by auto
      then have "best < py_min_from key best ys" using a Cons.prems(4) unfolding r b by simp
      moreover have "best \<in> set (best # ys)" by simp
      ultimately have "key (py_min_from key best ys) < key best"
        using Cons.IH[of best best] s unfolding b by blast
      then show ?thesis using a unfolding r b by simp
    qed
  qed
qed

lemma AStarFrontier_remove_first_min:
  assumes "fr \<noteq> []"
  shows "\<exists>i<length fr. AStarFrontier_remove fr = Inr (fr ! i, take i fr @ drop (Suc i) fr)
     \<and> (\<forall>j<length fr. f_cost (fr ! i) \<le> f_cost (fr ! j))
     \<and> (\<forall>j<i. f_cost (fr ! i) < f_cost (fr ! j))"
proof -
  obtain n where n: "length fr = Suc n" using assms by (cases fr) auto
  let ?key = "\<lambda>i. f_cost (fr ! i)"
  let ?i = "py_min_from ?key 0 [1..<length fr]"
  have up: "[0..<length fr] = 0 # [1..<length fr]" using n by (simp add: upt_rec)
  have pm: "py_min ?key [0..<length fr] = Inr ?i" unfolding up py_min_def by simp
  have mem: "?i \<in> set (0 # [1..<length fr])" by (rule py_min_from_mem)
  moreover have "0 < length fr" using assms by simp
  ultimately have lt: "?i < length fr" by auto
  have le: "\<forall>j<length fr. ?key ?i \<le> ?key j"
  proof (intro allI impI)
    fix j assume "j < length fr"
    then have "j \<in> set (0 # [1..<length fr])" by (cases j) auto
    then show "?key ?i \<le> ?key j" by (rule py_min_from_le)
  qed
  have srt: "sorted (0 # [1..<length fr])" "distinct (0 # [1..<length fr])" by auto
  have first: "\<forall>j<?i. ?key ?i < ?key j"
  proof (intro allI impI)
    fix j assume j: "j < ?i"
    then have "j \<in> set (0 # [1..<length fr])" using lt by (cases j) auto
    from py_min_from_first[OF srt this j] show "?key ?i < ?key j" .
  qed
  have "AStarFrontier_remove fr = Inr (fr ! ?i, take ?i fr @ drop (Suc ?i) fr)"
    using assms lt pm by (simp add: AStarFrontier_remove_def empty_frontier_def pop_def)
  with lt le first show ?thesis by blast
qed

lemma remove_single: "frontier_remove pol [n] = Inr (n, [])"
  by (cases pol) (simp_all add: StackFrontier_remove_def QueueFrontier_remove_def AStarFrontier_remove_def empty_frontier_def py_min_def pop_def)

text \<open>
  Claim C5. For each of the three frontier policies, \<^verbatim>\<open>remove()\<close> on an empty
  frontier fails by raising an exception rather than returning a value: the model's
  result is the error \<open>Exception ''empty frontier''\<close>, which is the source's
  \<^verbatim>\<open>raise Exception("empty frontier")\<close> (the specification calls this error
  EmptyFrontierError).
\<close>

theorem remove_on_empty_frontier_raises:
  "StackFrontier_remove [] = Inl (Exception ''empty frontier'')
   \<and> QueueFrontier_remove [] = Inl (Exception ''empty frontier'')
   \<and> AStarFrontier_remove [] = Inl (Exception ''empty frontier'')"
  by (simp add: StackFrontier_remove_def QueueFrontier_remove_def AStarFrontier_remove_def
      empty_frontier_def)

text \<open>
  Claim C7. On a non-empty priority frontier, \<^verbatim>\<open>remove()\<close> returns the node at
  an index \<open>i\<close> whose \<^verbatim>\<open>f\<close> is minimal among all contained nodes, every node
  before index \<open>i\<close> has a strictly larger \<^verbatim>\<open>f\<close> (so among the nodes tied for
  the minimum it is the earliest inserted, \<^verbatim>\<open>add\<close> appending at the end), and
  the frontier that remains is the old one without index \<open>i\<close>.
\<close>

theorem priority_remove_first_minimum:
  assumes "fr \<noteq> []"
  shows "\<exists>i<length fr.
           AStarFrontier_remove fr = Inr (fr ! i, take i fr @ drop (Suc i) fr)
           \<and> (\<forall>j<length fr. f_cost (fr ! i) \<le> f_cost (fr ! j))
           \<and> (\<forall>j<i. f_cost (fr ! i) < f_cost (fr ! j))"
  using assms by (rule AStarFrontier_remove_first_min)

theorem priority_remove_first_minimum_witness:
  "[Node ''a'' None None 0 2, Node ''b'' None (Some ''m'') 1 1, Node ''c'' None (Some ''k'') 1 1] \<noteq> []
   \<and> AStarFrontier_remove
       [Node ''a'' None None 0 2, Node ''b'' None (Some ''m'') 1 1, Node ''c'' None (Some ''k'') 1 1]
     = Inr (Node ''b'' None (Some ''m'') 1 1,
            [Node ''a'' None None 0 2, Node ''c'' None (Some ''k'') 1 1])"
proof -
  let ?fr = "[Node ''a'' None None 0 2, Node ''b'' None (Some ''m'') 1 1,
              Node ''c'' None (Some ''k'') 1 (1::int)]"
  have ne: "?fr \<noteq> []" by simp
  obtain i where i: "i < length ?fr"
    and r: "AStarFrontier_remove ?fr = Inr (?fr ! i, take i ?fr @ drop (Suc i) ?fr)"
    and le: "\<forall>j<length ?fr. f_cost (?fr ! i) \<le> f_cost (?fr ! j)"
    and first: "\<forall>j<i. f_cost (?fr ! i) < f_cost (?fr ! j)"
    using priority_remove_first_minimum [OF ne] by blast
  from i have "i = 0 \<or> i = 1 \<or> i = 2" by auto
  moreover have "i \<noteq> 0"
  proof
    assume "i = 0"
    with le [rule_format, of 1] show False by simp
  qed
  moreover have "i \<noteq> 2"
  proof
    assume "i = 2"
    with first [rule_format, of 1] show False by simp
  qed
  ultimately have "i = 1" by blast
  with r ne show ?thesis by simp
qed

section \<open>Paths, nodes and the inner loop\<close>

subsection \<open>Paths\<close>

lemma path_end_Nil [simp]: "path_end s [] = s"
  by (simp add: path_end_def)

lemma path_end_Cons [simp]: "path_end s ((a, t) # p) = path_end t p"
  by (cases p) (auto simp: path_end_def)

lemma path_end_snoc [simp]: "path_end s (p @ [(a, t)]) = t"
  by (simp add: path_end_def)

lemma valid_path_append:
  "valid_path nbrs s (p @ q) = (valid_path nbrs s p \<and> valid_path nbrs (path_end s p) q)"
  by (induction p arbitrary: s) (auto split: option.splits)

lemma path_end_append: "path_end s (p @ q) = path_end (path_end s p) q"
  by (induction p arbitrary: s) auto

lemma connects_Nil: "connects nbrs s [] t = (s = t)"
  by (simp add: connects_def)

lemma connects_snoc:
  "connects nbrs s p u \<Longrightarrow> edge nbrs u m t \<Longrightarrow> connects nbrs s (p @ [(Some m, t)]) t"
  by (simp add: connects_def valid_path_append)

lemma reachable_refl: "reachable nbrs s s"
proof -
  have "connects nbrs s [] s" by (simp add: connects_Nil)
  then show ?thesis unfolding reachable_def ..
qed

lemma reachable_step:
  assumes "reachable nbrs s u" "edge nbrs u m t"
  shows "reachable nbrs s t"
proof -
  from assms(1) obtain p where "connects nbrs s p u" unfolding reachable_def ..
  then have "connects nbrs s (p @ [(Some m, t)]) t" using assms(2) by (rule connects_snoc)
  then show ?thesis unfolding reachable_def ..
qed

lemma closed_contains_connected:
  assumes "\<forall>u\<in>X. \<forall>a v. edge nbrs u a v \<longrightarrow> v \<in> X"
  shows "s \<in> X \<Longrightarrow> valid_path nbrs s p \<Longrightarrow> path_end s p \<in> X"
proof (induction p arbitrary: s)
  case Nil then show ?case by simp
next
  case (Cons x p)
  obtain a t where x: "x = (a, t)" by (cases x)
  from Cons.prems(2) obtain m where "a = Some m" "edge nbrs s m t" "valid_path nbrs t p"
    unfolding x by (auto split: option.splits)
  moreover then have "t \<in> X" using assms Cons.prems(1) by blast
  ultimately show ?case using Cons.IH[of t] unfolding x by simp
qed

lemma closed_contains_reachable:
  assumes "\<forall>u\<in>X. \<forall>a v. edge nbrs u a v \<longrightarrow> v \<in> X" "s \<in> X" "reachable nbrs s t"
  shows "t \<in> X"
proof -
  from assms(3) obtain p where "valid_path nbrs s p" "path_end s p = t"
    unfolding reachable_def connects_def by blast
  then show ?thesis using closed_contains_connected[OF assms(1,2)] by blast
qed

lemma finite_graph_edge:
  assumes "finite_graph nbrs V" "u \<in> V" "edge nbrs u a v"
  shows "v \<in> V"
proof -
  from assms(3) obtain ns where ns: "nbrs u = Inr ns" "(a, v) \<in> set ns"
    unfolding edge_def by (auto split: sum.splits)
  from assms(1,2) ns(1) have "snd ` set ns \<subseteq> V"
    unfolding finite_graph_def by (auto split: sum.splits)
  with ns(2) show ?thesis by force
qed

lemma finite_graph_reachable:
  assumes "finite_graph nbrs V" "s \<in> V" "reachable nbrs s t"
  shows "t \<in> V"
proof -
  have "\<forall>u\<in>V. \<forall>a v. edge nbrs u a v \<longrightarrow> v \<in> V"
    using finite_graph_edge[OF assms(1)] by blast
  then show ?thesis using assms(2,3) by (rule closed_contains_reachable)
qed

lemma finite_graph_nbrs:
  "finite_graph nbrs V \<Longrightarrow> v \<in> V \<Longrightarrow> \<exists>ns. nbrs v = Inr ns"
  unfolding finite_graph_def by (cases "nbrs v") auto

subsection \<open>Nodes\<close>

lemma path_back_sel:
  "path_back c = (case parent c of None \<Rightarrow> [] | Some p \<Rightarrow> (action c, state c) # path_back p)"
  by (cases c) (auto split: option.splits)

lemma reconstruct_child:
  "makes_child mk \<Longrightarrow> reconstruct (mk n m p) = reconstruct n @ [(Some m, p)]"
  unfolding makes_child_def reconstruct_def by (subst path_back_sel) simp

lemma depth_child: "makes_child mk \<Longrightarrow> depth (mk n m p) = Suc (depth n)"
  unfolding makes_child_def depth_def by (subst path_back_sel) simp

lemma length_reconstruct: "length (reconstruct n) = depth n"
  by (simp add: reconstruct_def depth_def)

lemma makes_child_plain: "makes_child plain_child"
  by (simp add: makes_child_def plain_child_def)

lemma makes_child_astar: "makes_child (astar_child h)"
  by (simp add: makes_child_def astar_child_def Let_def)

subsection \<open>Frontier operations\<close>

lemma contains_state_iff: "contains_state fr s \<longleftrightarrow> s \<in> state ` set fr"
  by (auto simp: contains_state_def list_ex_iff)

lemma removes_one_stack: "removes_one StackFrontier_remove"
  unfolding removes_one_def
proof (intro allI impI)
  fix fr :: "('a, 'b) frontier" assume ne: "fr \<noteq> []"
  then have "length fr - 1 < length fr" by simp
  moreover have "StackFrontier_remove fr = Inr (fr ! (length fr - 1), take (length fr - 1) fr @ drop (Suc (length fr - 1)) fr)"
    using ne by (simp add: StackFrontier_remove_def empty_frontier_def last_conv_nth butlast_conv_take)
  ultimately show "\<exists>i<length fr. StackFrontier_remove fr = Inr (fr ! i, take i fr @ drop (Suc i) fr)"
    by blast
qed

lemma removes_one_queue: "removes_one QueueFrontier_remove"
  unfolding removes_one_def
proof (intro allI impI)
  fix fr :: "('a, 'b) frontier" assume ne: "fr \<noteq> []"
  then have "QueueFrontier_remove fr = Inr (fr ! 0, take 0 fr @ drop (Suc 0) fr)"
    by (simp add: QueueFrontier_remove_def empty_frontier_def hd_conv_nth drop_Suc)
  then show "\<exists>i<length fr. QueueFrontier_remove fr = Inr (fr ! i, take i fr @ drop (Suc i) fr)"
    using ne by blast
qed

lemma removes_one_astar: "removes_one AStarFrontier_remove"
  unfolding removes_one_def using AStarFrontier_remove_first_min by blast

lemma removes_one_policy: "removes_one (frontier_remove pol)"
  by (cases pol) (simp_all add: removes_one_stack removes_one_queue removes_one_astar)

lemma removes_oneD:
  assumes "removes_one rm" "fr \<noteq> []"
  obtains n fr' where "rm fr = Inr (n, fr')" "set fr = insert n (set fr')"
    "mset fr = add_mset n (mset fr')"
    "distinct (map state fr) \<Longrightarrow> distinct (map state fr') \<and> state n \<notin> state ` set fr'"
proof -
  from assms obtain i where i: "i < length fr"
    and r: "rm fr = Inr (fr ! i, take i fr @ drop (Suc i) fr)"
    unfolding removes_one_def by blast
  have split: "fr = take i fr @ fr ! i # drop (Suc i) fr" using i by (rule id_take_nth_drop)
  let ?fr' = "take i fr @ drop (Suc i) fr"
  have s: "set fr = insert (fr ! i) (set ?fr')" by (subst split) (simp del: append_take_drop_id)
  have m: "mset fr = add_mset (fr ! i) (mset ?fr')" by (subst split) (simp del: append_take_drop_id)
  have d: "distinct (map state fr) \<Longrightarrow> distinct (map state ?fr') \<and> state (fr ! i) \<notin> state ` set ?fr'"
  proof -
    assume "distinct (map state fr)"
    then have "distinct (map state (take i fr @ fr ! i # drop (Suc i) fr))" using split by simp
    then show ?thesis by auto
  qed
  from r s m d show ?thesis by (rule that)
qed

subsection \<open>The inner loop\<close>

lemma expand_prefix: "\<exists>cs. expand mk n ex ns fr = fr @ cs"
proof (induction ns arbitrary: fr)
  case Nil then show ?case by simp
next
  case (Cons x ns)
  obtain m p where x: "x = (m, p)" by (cases x)
  let ?fr = "if \<not> contains_state fr p \<and> p \<notin> ex then add fr (mk n m p) else fr"
  from Cons.IH[of ?fr] obtain cs where cs: "expand mk n ex ns ?fr = ?fr @ cs" ..
  obtain ds where ds: "?fr = fr @ ds" by (cases "\<not> contains_state fr p \<and> p \<notin> ex") (auto simp: add_def)
  have "expand mk n ex (x # ns) fr = expand mk n ex ns ?fr" unfolding x by simp
  also have "\<dots> = fr @ (ds @ cs)" using cs ds by simp
  finally show ?case ..
qed

lemma expand_mono: "set fr \<subseteq> set (expand mk n ex ns fr)"
  using expand_prefix[of mk n ex ns fr] by auto

lemma expand_new:
  "c \<in> set (expand mk n ex ns fr) \<Longrightarrow> c \<notin> set fr \<Longrightarrow>
   \<exists>m p. (m, p) \<in> set ns \<and> c = mk n m p \<and> p \<notin> ex \<and> p \<notin> state ` set fr"
proof (induction ns arbitrary: fr)
  case Nil then show ?case by simp
next
  case (Cons x ns)
  obtain m p where x: "x = (m, p)" by (cases x)
  let ?fr = "if \<not> contains_state fr p \<and> p \<notin> ex then add fr (mk n m p) else fr"
  have c: "c \<in> set (expand mk n ex ns ?fr)" using Cons.prems(1) unfolding x by simp
  show ?case
  proof (cases "c \<in> set ?fr")
    case True
    with Cons.prems(2) have "c = mk n m p" "\<not> contains_state fr p" "p \<notin> ex"
      by (auto simp: add_def split: if_splits)
    then show ?thesis unfolding x by (auto simp: contains_state_iff)
  next
    case False
    from Cons.IH[OF c False] obtain m' p' where
      mp: "(m', p') \<in> set ns" "c = mk n m' p'" "p' \<notin> ex" "p' \<notin> state ` set ?fr" by blast
    have "set fr \<subseteq> set ?fr" by (auto simp: add_def)
    with mp(4) have "p' \<notin> state ` set fr" by blast
    moreover have "(m', p') \<in> set (x # ns)" using mp(1) by simp
    ultimately show ?thesis using mp(2,3) by blast
  qed
qed

lemma expand_distinct:
  "makes_child mk \<Longrightarrow> distinct (map state fr) \<Longrightarrow> distinct (map state (expand mk n ex ns fr))"
proof (induction ns arbitrary: fr)
  case Nil then show ?case by simp
next
  case (Cons x ns)
  obtain m p where x: "x = (m, p)" by (cases x)
  have "distinct (map state (if \<not> contains_state fr p \<and> p \<notin> ex then add fr (mk n m p) else fr))"
    using Cons.prems by (auto simp: add_def contains_state_iff makes_child_def)
  from Cons.IH[OF Cons.prems(1) this] show ?case unfolding x by simp
qed

lemma expand_covers:
  "makes_child mk \<Longrightarrow> (m, p) \<in> set ns \<Longrightarrow> p \<in> ex \<union> state ` set (expand mk n ex ns fr)"
proof (induction ns arbitrary: fr)
  case Nil then show ?case by simp
next
  case (Cons x ns)
  obtain m' p' where x: "x = (m', p')" by (cases x)
  let ?fr = "if \<not> contains_state fr p' \<and> p' \<notin> ex then add fr (mk n m' p') else fr"
  show ?case
  proof (cases "(m, p) \<in> set ns")
    case True
    from Cons.IH[OF Cons.prems(1) True, of ?fr] show ?thesis unfolding x by simp
  next
    case False
    with Cons.prems(2) have e: "p' = p" unfolding x by simp
    have "p \<in> ex \<union> state ` set ?fr"
      using Cons.prems(1) unfolding e by (auto simp: add_def contains_state_iff makes_child_def)
    moreover have "set ?fr \<subseteq> set (expand mk n ex ns ?fr)" by (rule expand_mono)
    ultimately show ?thesis unfolding x e by auto
  qed
qed

section \<open>The loop\<close>

subsection \<open>A total-correctness rule for the loop\<close>

lemma search_loop_rule:
  fixes m :: "('s, 'a) search_state \<Rightarrow> nat"
  assumes rm: "removes_one rm"
    and inv: "I st"
    and found: "\<And>st n fr'. I st \<Longrightarrow> rm (frontier st) = Inr (n, fr') \<Longrightarrow> frontier st \<noteq> [] \<Longrightarrow>
        state n = target \<Longrightarrow>
        Q (Inr (Some (reconstruct n), st\<lparr>frontier := fr', nodes_explored := nodes_explored st + 1\<rparr>))"
    and step: "\<And>st n fr'. I st \<Longrightarrow> rm (frontier st) = Inr (n, fr') \<Longrightarrow> frontier st \<noteq> [] \<Longrightarrow>
        state n \<noteq> target \<Longrightarrow>
        \<exists>ns. nbrs (state n) = Inr ns \<and> I (next_state mk n ns fr' st)
             \<and> m (next_state mk n ns fr' st) < m st"
    and stop: "\<And>st. I st \<Longrightarrow> frontier st = [] \<Longrightarrow> Q (Inr (None, st))"
  shows "\<exists>r. search_loop rm mk nbrs target st = Some r \<and> Q r"
  using inv
proof (induction "m st" arbitrary: st rule: less_induct)
  case less
  show ?case
  proof (cases "frontier st = []")
    case True
    have "search_loop rm mk nbrs target st = Some (Inr (None, st))"
      by (subst search_loop.simps) (simp add: empty_frontier_def True)
    then show ?thesis using stop[OF less.prems True] by simp
  next
    case False
    from rm False obtain i where "rm (frontier st) = Inr (frontier st ! i, take i (frontier st) @ drop (Suc i) (frontier st))"
      unfolding removes_one_def by blast
    then obtain n fr' where r: "rm (frontier st) = Inr (n, fr')" by blast
    show ?thesis
    proof (cases "state n = target")
      case True
      have "search_loop rm mk nbrs target st =
         Some (Inr (Some (reconstruct n), st\<lparr>frontier := fr', nodes_explored := nodes_explored st + 1\<rparr>))"
        by (subst search_loop.simps) (simp add: empty_frontier_def False r True)
      then show ?thesis using found[OF less.prems r False True] by simp
    next
      case nt: False
      from step[OF less.prems r False nt] obtain ns where ns: "nbrs (state n) = Inr ns"
        and I': "I (next_state mk n ns fr' st)" and dec: "m (next_state mk n ns fr' st) < m st"
        by blast
      have "search_loop rm mk nbrs target st = search_loop rm mk nbrs target (next_state mk n ns fr' st)"
        by (subst search_loop.simps) (simp add: empty_frontier_def False r nt ns next_state_def)
      then show ?thesis using less.hyps[OF dec I'] by simp
    qed
  qed
qed

subsection \<open>The invariant of every search\<close>

lemma search_inv_initial:
  assumes "state start = source" "parent start = None"
  shows "search_inv nbrs source target (initial_state start)"
proof -
  have "path_back start = []" using assms(2) by (subst path_back_sel) simp
  then have "connects nbrs source (reconstruct start) (state start)"
    using assms(1) by (simp add: reconstruct_def connects_Nil)
  then show ?thesis
    using assms(1) by (simp add: search_inv_def initial_state_def add_def frontier_states_def)
qed

lemma search_inv_found:
  assumes "search_inv nbrs source target st" "n \<in> set (frontier st)" "state n = target"
  shows "connects nbrs source (reconstruct n) target"
  using assms unfolding search_inv_def by blast

lemma search_inv_exhausted:
  assumes inv: "search_inv nbrs source target st" and e: "frontier st = []"
  shows "\<not> reachable nbrs source target \<and> explored st = {v. reachable nbrs source v}"
proof -
  have fs: "frontier_states st = {}" using e by (simp add: frontier_states_def)
  have src: "source \<in> explored st" using inv fs unfolding search_inv_def by simp
  have cl: "\<forall>u\<in>explored st. \<forall>a v. edge nbrs u a v \<longrightarrow> v \<in> explored st"
    using inv fs unfolding search_inv_def by simp
  have sub: "\<forall>v\<in>explored st. reachable nbrs source v" using inv unfolding search_inv_def by simp
  have sup: "\<And>v. reachable nbrs source v \<Longrightarrow> v \<in> explored st"
    using closed_contains_reachable[OF cl src] .
  have "target \<notin> explored st" using inv unfolding search_inv_def by simp
  with sup sub show ?thesis by blast
qed

lemma search_inv_step:
  assumes fg: "finite_graph nbrs V" and sV: "source \<in> V" and mk: "makes_child mk"
    and inv: "search_inv nbrs source target st"
    and sfr: "set (frontier st) = insert n (set fr')"
    and dfr: "distinct (map state fr')" and nfr: "state n \<notin> state ` set fr'"
    and nt: "state n \<noteq> target"
  shows "\<exists>ns. nbrs (state n) = Inr ns \<and> search_inv nbrs source target (next_state mk n ns fr' st)
           \<and> card (V - explored (next_state mk n ns fr' st)) < card (V - explored st)"
proof -
  have nin: "n \<in> set (frontier st)" using sfr by simp
  have i2: "frontier_states st \<inter> explored st = {}"
    and i3: "\<forall>n\<in>set (frontier st). connects nbrs source (reconstruct n) (state n)"
    and i4: "\<forall>v\<in>explored st. reachable nbrs source v"
    and i5: "source \<in> explored st \<union> frontier_states st"
    and i6: "\<forall>u\<in>explored st. \<forall>a v. edge nbrs u a v \<longrightarrow> v \<in> explored st \<union> frontier_states st"
    and i7: "target \<notin> explored st"
    using inv unfolding search_inv_def by blast+
  have cn: "connects nbrs source (reconstruct n) (state n)" using i3 nin by blast
  then have rn: "reachable nbrs source (state n)" unfolding reachable_def ..
  then have nV: "state n \<in> V" using finite_graph_reachable[OF fg sV] by blast
  then obtain ns where ns: "nbrs (state n) = Inr ns" using finite_graph_nbrs[OF fg] by blast
  have nex: "state n \<notin> explored st" using i2 nin unfolding frontier_states_def by blast
  let ?ex = "insert (state n) (explored st)"
  let ?fr = "expand mk n ?ex ns fr'"
  let ?st = "next_state mk n ns fr' st"
  have fr_st: "frontier ?st = ?fr" and ex_st: "explored ?st = ?ex" by (simp_all add: next_state_def)
  have fs_old: "frontier_states st = insert (state n) (state ` set fr')"
    unfolding frontier_states_def sfr by simp
  have fs_new: "frontier_states ?st = state ` set ?fr" unfolding frontier_states_def fr_st ..
  have old_sub: "state ` set fr' \<subseteq> state ` set ?fr" using expand_mono[of fr' mk n ?ex ns] by blast
  have new_child: "\<And>c. c \<in> set ?fr \<Longrightarrow> c \<notin> set fr' \<Longrightarrow>
      \<exists>m p. (m, p) \<in> set ns \<and> c = mk n m p \<and> state c = p \<and> p \<notin> ?ex"
  proof -
    fix c assume "c \<in> set ?fr" "c \<notin> set fr'"
    from expand_new[OF this] obtain m p where "(m, p) \<in> set ns" "c = mk n m p" "p \<notin> ?ex" by blast
    moreover then have "state c = p" using mk unfolding makes_child_def by simp
    ultimately show "\<exists>m p. (m, p) \<in> set ns \<and> c = mk n m p \<and> state c = p \<and> p \<notin> ?ex" by blast
  qed
  have j1: "distinct (map state ?fr)" using expand_distinct[OF mk dfr] .
  have j2: "state ` set ?fr \<inter> ?ex = {}"
  proof -
    have "state c \<notin> ?ex" if c: "c \<in> set ?fr" for c
    proof (cases "c \<in> set fr'")
      case True
      then have "state c \<in> frontier_states st" unfolding fs_old by simp
      then have "state c \<notin> explored st" using i2 by blast
      moreover have "state c \<noteq> state n" using True nfr by (auto simp: image_iff)
      ultimately show ?thesis by simp
    next
      case False
      from new_child[OF c False] show ?thesis by metis
    qed
    then show ?thesis by blast
  qed
  have j3: "\<forall>c\<in>set ?fr. connects nbrs source (reconstruct c) (state c)"
  proof
    fix c assume c: "c \<in> set ?fr"
    show "connects nbrs source (reconstruct c) (state c)"
    proof (cases "c \<in> set fr'")
      case True
      then have "c \<in> set (frontier st)" using sfr by simp
      then show ?thesis using i3 by blast
    next
      case False
      from new_child[OF c False] obtain m p where mp: "(m, p) \<in> set ns" "c = mk n m p" "state c = p"
        by blast
      have "edge nbrs (state n) m p" using ns mp(1) by (simp add: edge_def)
      from connects_snoc[OF cn this] show ?thesis
        unfolding mp(2) reconstruct_child[OF mk] using mp(2,3) by simp
    qed
  qed
  have j4: "\<forall>v\<in>?ex. reachable nbrs source v" using i4 rn by simp
  have j5: "source \<in> ?ex \<union> state ` set ?fr" using i5 old_sub unfolding fs_old by blast
  have j6: "\<forall>u\<in>?ex. \<forall>a v. edge nbrs u a v \<longrightarrow> v \<in> ?ex \<union> state ` set ?fr"
  proof (intro ballI allI impI)
    fix u a v assume u: "u \<in> ?ex" and e: "edge nbrs u a v"
    show "v \<in> ?ex \<union> state ` set ?fr"
    proof (cases "u = state n")
      case True
      then have "(a, v) \<in> set ns" using e ns by (simp add: edge_def)
      from expand_covers[OF mk this] show ?thesis .
    next
      case False
      then have "u \<in> explored st" using u by simp
      then have "v \<in> explored st \<union> frontier_states st" using i6 e by blast
      then show ?thesis using old_sub unfolding fs_old by blast
    qed
  qed
  have j7: "target \<notin> ?ex" using i7 nt by simp
  have inv': "search_inv nbrs source target ?st"
    unfolding search_inv_def fs_new fr_st ex_st using j1 j2 j3 j4 j5 j6 j7 by blast
  have "finite V" using fg unfolding finite_graph_def by simp
  then have fin: "finite (V - explored st)" by simp
  have "state n \<in> V - explored st" using nV nex by simp
  then have "card ((V - explored st) - {state n}) < card (V - explored st)"
    using fin by (rule card_Diff1_less[rotated])
  moreover have "V - ?ex = (V - explored st) - {state n}" by blast
  ultimately have "card (V - explored ?st) < card (V - explored st)" unfolding ex_st by simp
  with ns inv' show ?thesis by blast
qed

lemma removes_one_result:
  assumes "removes_one rm" "fr \<noteq> []" "rm fr = Inr (n, fr')"
  shows "set fr = insert n (set fr')"
    and "mset fr = add_mset n (mset fr')"
    and "distinct (map state fr) \<Longrightarrow> distinct (map state fr') \<and> state n \<notin> state ` set fr'"
proof -
  from removes_oneD[OF assms(1,2)] obtain n0 fr0 where
    r: "rm fr = Inr (n0, fr0)" and s: "set fr = insert n0 (set fr0)"
    and m: "mset fr = add_mset n0 (mset fr0)"
    and d: "distinct (map state fr) \<Longrightarrow> distinct (map state fr0) \<and> state n0 \<notin> state ` set fr0"
    by blast
  from r assms(3) have e: "n0 = n" "fr0 = fr'" by simp_all
  show "set fr = insert n (set fr')" using s unfolding e .
  show "mset fr = add_mset n (mset fr')" using m unfolding e .
  show "distinct (map state fr) \<Longrightarrow> distinct (map state fr') \<and> state n \<notin> state ` set fr'"
    using d unfolding e .
qed

text \<open>
  Every search on a finite graph returns: a path that leads from the source to the
  target, or "no path" when the target is unreachable, and then the explored set is
  the set of states reachable from the source.
\<close>

lemma search_loop_total:
  assumes fg: "finite_graph nbrs V" and sV: "source \<in> V"
    and rm: "removes_one rm" and mk: "makes_child mk"
    and start: "state start = source" "parent start = None"
  shows "\<exists>p st. search_loop rm mk nbrs target (initial_state start) = Some (Inr (p, st)) \<and>
           (case p of
              Some path \<Rightarrow> connects nbrs source path target
            | None \<Rightarrow> \<not> reachable nbrs source target \<and>
                      explored st = {v. reachable nbrs source v})"
proof -
  let ?Q = "\<lambda>r. \<exists>p st. r = Inr (p, st) \<and>
           (case p of
              Some path \<Rightarrow> connects nbrs source path target
            | None \<Rightarrow> \<not> reachable nbrs source target \<and>
                      explored st = {v. reachable nbrs source v})"
  have "\<exists>r. search_loop rm mk nbrs target (initial_state start) = Some r \<and> ?Q r"
  proof (rule search_loop_rule[where I = "search_inv nbrs source target"
        and m = "\<lambda>st. card (V - explored st)", OF rm])
    show "search_inv nbrs source target (initial_state start)"
      using start by (rule search_inv_initial)
  next
    fix st :: "('a, 'b) search_state" and n fr'
    assume inv: "search_inv nbrs source target st" and r: "rm (frontier st) = Inr (n, fr')"
      and ne: "frontier st \<noteq> []" and t: "state n = target"
    have "n \<in> set (frontier st)" using removes_one_result(1)[OF rm ne r] by simp
    from search_inv_found[OF inv this t]
    show "?Q (Inr (Some (reconstruct n), st\<lparr>frontier := fr', nodes_explored := nodes_explored st + 1\<rparr>))"
      by simp
  next
    fix st :: "('a, 'b) search_state" and n fr'
    assume inv: "search_inv nbrs source target st" and r: "rm (frontier st) = Inr (n, fr')"
      and ne: "frontier st \<noteq> []" and nt: "state n \<noteq> target"
    have d: "distinct (map state (frontier st))" using inv unfolding search_inv_def by simp
    note rr = removes_one_result[OF rm ne r]
    from rr(3)[OF d] have d': "distinct (map state fr')" and nf: "state n \<notin> state ` set fr'" by simp_all
    from search_inv_step[OF fg sV mk inv rr(1) d' nf nt]
    show "\<exists>ns. nbrs (state n) = Inr ns \<and> search_inv nbrs source target (next_state mk n ns fr' st)
           \<and> card (V - explored (next_state mk n ns fr' st)) < card (V - explored st)" .
  next
    fix st :: "('a, 'b) search_state"
    assume inv: "search_inv nbrs source target st" and e: "frontier st = []"
    from search_inv_exhausted[OF inv e] show "?Q (Inr (None, st))" by simp
  qed
  then show ?thesis by blast
qed

lemma connects_reachable: "connects nbrs s p t \<Longrightarrow> reachable nbrs s t"
  unfolding reachable_def ..

lemma returned_Inr: "r = Some (Inr (p, st)) \<Longrightarrow> returned r = Some (Inr p)"
  by (simp add: returned_def)


section \<open>The search\<close>

text \<open>
  Claim C6. When the source equals the target, the search returns the empty path under
  every frontier policy: \<^verbatim>\<open>shortest_path\<close> (LIFO), the same loop with a
  \<^verbatim>\<open>QueueFrontier\<close> (FIFO) and \<^verbatim>\<open>shortest_path_A_STAR\<close> (priority) with any
  heuristic, on any graph, known source or not.
\<close>

theorem source_is_target_empty_path:
  "shortest_path nbrs source source = Some (Inr (Some []))
   \<and> shortest_path_FIFO nbrs source source = Some (Inr (Some []))
   \<and> shortest_path_A_STAR nbrs source source h = Some (Inr (Some []))"
  by (simp add: shortest_path_def shortest_path_FIFO_def shortest_path_A_STAR_def
      run_search_def run_A_STAR_def returned_def initial_state_def add_def search_loop.simps
      empty_frontier_def remove_single [of LIFO, simplified] remove_single [of FIFO, simplified]
      remove_single [of Priority, simplified] reconstruct_def)

section \<open>The example graph\<close>

lemma example_graph_finite: "finite_graph example_graph {''A'', ''B'', ''C'', ''D''}"
  by (simp add: finite_graph_def example_graph_def)

lemma example_graph_finite_ABC: "finite_graph example_graph {''A'', ''B'', ''C''}"
  by (simp add: finite_graph_def example_graph_def)

lemma example_graph_closed_ABC:
  "\<forall>u\<in>{''A'', ''B'', ''C''}. \<forall>a v. edge example_graph u a v \<longrightarrow> v \<in> {''A'', ''B'', ''C''}"
  using finite_graph_edge[OF example_graph_finite_ABC] by blast

lemma example_graph_D_unreachable: "\<not> reachable example_graph ''A'' ''D''"
proof
  assume "reachable example_graph ''A'' ''D''"
  with closed_contains_reachable[OF example_graph_closed_ABC, of "''A''" "''D''"]
  show False by simp
qed

lemma edge_reachable: "edge nbrs u m v \<Longrightarrow> reachable nbrs u v"
  using reachable_step[OF reachable_refl] .

lemma example_graph_connected: "connected_graph example_graph {''A'', ''B'', ''C''}"
proof -
  have "reachable example_graph ''A'' ''B''" by (rule edge_reachable[of _ _ "''m1''"]) (simp add: edge_def example_graph_def)
  moreover have "reachable example_graph ''A'' ''C''" by (rule edge_reachable[of _ _ "''m3''"]) (simp add: edge_def example_graph_def)
  moreover have "reachable example_graph ''B'' ''A''" by (rule edge_reachable[of _ _ "''m1''"]) (simp add: edge_def example_graph_def)
  moreover have "reachable example_graph ''B'' ''C''" by (rule edge_reachable[of _ _ "''m2''"]) (simp add: edge_def example_graph_def)
  moreover have "reachable example_graph ''C'' ''A''" by (rule edge_reachable[of _ _ "''m3''"]) (simp add: edge_def example_graph_def)
  moreover have "reachable example_graph ''C'' ''B''" by (rule edge_reachable[of _ _ "''m2''"]) (simp add: edge_def example_graph_def)
  ultimately show ?thesis unfolding connected_graph_def by (simp add: reachable_refl)
qed

text \<open>The searches run on the example graph, evaluated by rewriting.\<close>

lemmas eval_defs = shortest_path_def shortest_path_FIFO_def shortest_path_A_STAR_def run_search_def
  run_A_STAR_def returned_def initial_state_def add_def empty_frontier_def contains_state_def
  StackFrontier_remove_def QueueFrontier_remove_def AStarFrontier_remove_def py_min_def pop_def
  plain_child_def astar_child_def reconstruct_def example_graph_def search_loop.simps

lemma example_FIFO_A_C:
  "shortest_path_FIFO example_graph ''A'' ''C'' = Some (Inr (Some [(Some ''m3'', ''C'')]))"
  by (simp add: eval_defs)

lemma example_LIFO_A_B:
  "shortest_path example_graph ''A'' ''B'' = Some (Inr (Some [(Some ''m1'', ''B'')]))"
  by (simp add: eval_defs)

lemma example_A_STAR_A_C:
  "shortest_path_A_STAR example_graph ''A'' ''C'' (\<lambda>x. 0) = Some (Inr (Some [(Some ''m3'', ''C'')]))"
  by (simp add: eval_defs upt_rec)

lemma example_LIFO_A_D: "shortest_path example_graph ''A'' ''D'' = Some (Inr None)"
  by (simp add: eval_defs)

lemma example_unknown_source: "shortest_path example_graph ''E'' ''D'' = Some (Inl KeyError)"
  by (simp add: eval_defs)

section \<open>Termination, soundness and completeness of the search\<close>

text \<open>
  Claim C2. On a finite graph, for a source in the graph and a target to which no path
  leads from the source, the search returns the "no path" value \<^verbatim>\<open>None\<close>, and
  when it returns the explored set is exactly the set of states reachable from the
  source. This holds for the loop of \<^verbatim>\<open>shortest_path\<close> under each of the three
  frontier policies and for \<^verbatim>\<open>shortest_path_A_STAR\<close> with any heuristic; that
  the search returns at all is part of the statement.
\<close>

theorem no_path_returns_None_and_explores_reachable:
  assumes "finite_graph nbrs V" and "source \<in> V" and "\<not> reachable nbrs source target"
  shows "(\<exists>st. run_search pol nbrs source target = Some (Inr (None, st))
              \<and> returned (run_search pol nbrs source target) = Some (Inr None)
              \<and> explored st = {v. reachable nbrs source v})
       \<and> (\<exists>st. run_A_STAR nbrs source target h = Some (Inr (None, st))
              \<and> shortest_path_A_STAR nbrs source target h = Some (Inr None)
              \<and> explored st = {v. reachable nbrs source v})"
proof
  from search_loop_total[OF assms(1,2) removes_one_policy makes_child_plain,
      of "Node source None None 0 0" pol target]
  obtain p st where r: "run_search pol nbrs source target = Some (Inr (p, st))"
    and c: "case p of Some path \<Rightarrow> connects nbrs source path target
            | None \<Rightarrow> \<not> reachable nbrs source target \<and> explored st = {v. reachable nbrs source v}"
    unfolding run_search_def by auto
  have "p = None"
  proof (cases p)
    case (Some path)
    with c have "reachable nbrs source target" by (simp add: connects_reachable)
    with assms(3) show ?thesis by simp
  qed simp
  with r c returned_Inr[OF r]
  show "\<exists>st. run_search pol nbrs source target = Some (Inr (None, st))
              \<and> returned (run_search pol nbrs source target) = Some (Inr None)
              \<and> explored st = {v. reachable nbrs source v}" by simp
next
  from search_loop_total[OF assms(1,2) removes_one_astar makes_child_astar,
      of "Node source None None 0 (h source)" h target]
  obtain p st where r: "run_A_STAR nbrs source target h = Some (Inr (p, st))"
    and c: "case p of Some path \<Rightarrow> connects nbrs source path target
            | None \<Rightarrow> \<not> reachable nbrs source target \<and> explored st = {v. reachable nbrs source v}"
    unfolding run_A_STAR_def by auto
  have "p = None"
  proof (cases p)
    case (Some path)
    with c have "reachable nbrs source target" by (simp add: connects_reachable)
    with assms(3) show ?thesis by simp
  qed simp
  with r c returned_Inr[OF r]
  show "\<exists>st. run_A_STAR nbrs source target h = Some (Inr (None, st))
              \<and> shortest_path_A_STAR nbrs source target h = Some (Inr None)
              \<and> explored st = {v. reachable nbrs source v}"
    unfolding shortest_path_A_STAR_def by simp
qed

theorem no_path_returns_None_and_explores_reachable_witness:
  "finite_graph example_graph {''A'', ''B'', ''C'', ''D''}
   \<and> ''A'' \<in> {''A'', ''B'', ''C'', ''D''}
   \<and> \<not> reachable example_graph ''A'' ''D''
   \<and> (\<exists>st. run_search FIFO example_graph ''A'' ''D'' = Some (Inr (None, st))
           \<and> returned (run_search FIFO example_graph ''A'' ''D'') = Some (Inr None)
           \<and> explored st = {v. reachable example_graph ''A'' v})
   \<and> (\<exists>st. run_A_STAR example_graph ''A'' ''D'' (\<lambda>x. 0) = Some (Inr (None, st))
           \<and> shortest_path_A_STAR example_graph ''A'' ''D'' (\<lambda>x. 0) = Some (Inr None)
           \<and> explored st = {v. reachable example_graph ''A'' v})"
proof -
  have m: "''A'' \<in> {''A'', ''B'', ''C'', ''D''}" by simp
  from no_path_returns_None_and_explores_reachable[OF example_graph_finite m example_graph_D_unreachable, of FIFO "\<lambda>x. 0"]
  show ?thesis using example_graph_finite example_graph_D_unreachable by simp
qed

text \<open>
  Claim C4. On a finite graph and for a source in it, the LIFO search
  \<^verbatim>\<open>shortest_path\<close> terminates without an exception; a path it returns is a valid
  path from the source to the target; and it returns \<^verbatim>\<open>None\<close> exactly when the
  target is not reachable from the source (so it returns a valid path whenever one
  exists).
\<close>

theorem LIFO_search_terminates_with_valid_path:
  assumes "finite_graph nbrs V" and "source \<in> V"
  shows "\<exists>r. shortest_path nbrs source target = Some (Inr r)
           \<and> (\<forall>p. r = Some p \<longrightarrow> connects nbrs source p target)
           \<and> (r = None \<longleftrightarrow> \<not> reachable nbrs source target)"
proof -
  from search_loop_total[OF assms(1,2) removes_one_policy makes_child_plain,
      of "Node source None None 0 0" LIFO target]
  obtain p st where r: "run_search LIFO nbrs source target = Some (Inr (p, st))"
    and c: "case p of Some path \<Rightarrow> connects nbrs source path target
            | None \<Rightarrow> \<not> reachable nbrs source target \<and> explored st = {v. reachable nbrs source v}"
    unfolding run_search_def by auto
  have "shortest_path nbrs source target = Some (Inr p)"
    unfolding shortest_path_def using r by (rule returned_Inr)
  moreover have "\<forall>q. p = Some q \<longrightarrow> connects nbrs source q target" using c by auto
  moreover have "p = None \<longleftrightarrow> \<not> reachable nbrs source target"
    using c by (cases p) (auto simp: connects_reachable)
  ultimately show ?thesis by blast
qed

theorem LIFO_search_terminates_with_valid_path_witness:
  "finite_graph example_graph {''A'', ''B'', ''C'', ''D''}
   \<and> ''A'' \<in> {''A'', ''B'', ''C'', ''D''}
   \<and> (\<exists>r. shortest_path example_graph ''A'' ''C'' = Some (Inr r)
           \<and> (\<forall>p. r = Some p \<longrightarrow> connects example_graph ''A'' p ''C'')
           \<and> (r = None \<longleftrightarrow> \<not> reachable example_graph ''A'' ''C''))"
proof -
  have m: "''A'' \<in> {''A'', ''B'', ''C'', ''D''}" by simp
  from LIFO_search_terminates_with_valid_path[OF example_graph_finite m, of "''C''"]
  show ?thesis using example_graph_finite by simp
qed

section \<open>The frontier under sequences of operations\<close>

lemma frontier_remove_Inr:
  assumes "frontier_remove pol fr = Inr (n, fr')"
  shows "mset fr = add_mset n (mset fr')"
proof (cases "fr = []")
  case True
  then have "frontier_remove pol fr = Inl (Exception ''empty frontier'')"
    by (cases pol) (simp_all add: StackFrontier_remove_def QueueFrontier_remove_def
        AStarFrontier_remove_def empty_frontier_def)
  with assms show ?thesis by simp
next
  case False
  from removes_one_result(2)[OF removes_one_policy False assms] show ?thesis .
qed

lemma run_ops_mset:
  "run_ops pol ops (fr, held) = Inr (fr', held') \<Longrightarrow> mset fr = held \<Longrightarrow> mset fr' = held'"
proof (induction ops arbitrary: fr held)
  case Nil
  then show ?case by simp
next
  case (Cons op ops)
  show ?case
  proof (cases op)
    case (Add node)
    with Cons.prems(1) have "run_ops pol ops (add fr node, add_mset node held) = Inr (fr', held')"
      by simp
    moreover have "mset (add fr node) = add_mset node held" using Cons.prems(2) by (simp add: add_def)
    ultimately show ?thesis by (rule Cons.IH)
  next
    case Remove
    with Cons.prems(1) obtain node fr2 where r: "frontier_remove pol fr = Inr (node, fr2)"
      and run: "run_ops pol ops (fr2, held - {#node#}) = Inr (fr', held')"
      by (auto split: sum.splits)
    have "mset fr2 = held - {#node#}" using frontier_remove_Inr[OF r] Cons.prems(2) by simp
    with run show ?thesis by (rule Cons.IH)
  qed
qed

text \<open>
  Claim C8. After any sequence of \<^verbatim>\<open>add\<close> and \<^verbatim>\<open>remove\<close> operations on a
  frontier of any of the three variants, started empty, the frontier holds exactly the
  nodes added and not yet removed, and \<^verbatim>\<open>contains_state(s)\<close> is true if and only
  if one of those nodes has the state \<open>s\<close>.
\<close>

theorem contains_state_reflects_contents:
  assumes "run_ops pol ops ([], {#}) = Inr (fr, held)"
  shows "mset fr = held \<and> (contains_state fr s \<longleftrightarrow> (\<exists>n\<in>#held. state n = s))"
proof -
  have m: "mset fr = held" using run_ops_mset[OF assms] by simp
  have "contains_state fr s \<longleftrightarrow> (\<exists>n\<in>set fr. state n = s)"
    by (simp add: contains_state_def list_ex_iff)
  also have "\<dots> \<longleftrightarrow> (\<exists>n\<in>#held. state n = s)" using m by auto
  finally show ?thesis using m by simp
qed

theorem contains_state_reflects_contents_witness:
  "run_ops FIFO [Add (Node ''A'' None None 0 0), Add (Node ''B'' None None 0 0), Remove]
       ([] :: (string, string) frontier, {#})
     = Inr ([Node ''B'' None None 0 0], {#Node ''B'' None None 0 0#})
   \<and> contains_state [Node ''B'' None None 0 0 :: (string, string) node] ''B''
   \<and> \<not> contains_state [Node ''B'' None None 0 0 :: (string, string) node] ''A''"
proof -
  have r: "run_ops FIFO [Add (Node ''A'' None None 0 0), Add (Node ''B'' None None 0 0), Remove]
       ([] :: (string, string) frontier, {#})
     = Inr ([Node ''B'' None None 0 0], {#Node ''B'' None None 0 0#})"
    by (simp add: add_def QueueFrontier_remove_def empty_frontier_def)
  have a: "contains_state [Node ''B'' None None 0 0 :: (string, string) node] ''B''"
    using contains_state_reflects_contents[OF r, of "''B''"] by simp
  have b: "\<not> contains_state [Node ''B'' None None 0 0 :: (string, string) node] ''A''"
    using contains_state_reflects_contents[OF r, of "''A''"] by simp
  from r a b show ?thesis by blast
qed

text \<open>
  Claim C9. For the frontier's membership check, a node counts by its state only: a
  frontier holding one node answers \<^verbatim>\<open>contains_state\<close> for another node's state
  with true exactly when the two states are equal, whatever the parents, actions and
  costs of the two nodes are; and replacing a node of a frontier by one of the same
  state with any other fields changes no answer of \<^verbatim>\<open>contains_state\<close>. (The
  class \<^verbatim>\<open>Node\<close> defines no equality or hash of its own; membership is decided by
  \<^verbatim>\<open>node.state == state\<close>.)
\<close>

theorem membership_is_by_state_only:
  "contains_state [Node s p a gc fc] (state (Node s' p' a' gc' fc')) = (s = s')
   \<and> contains_state (fr1 @ Node s p a gc fc # fr2) t
       = contains_state (fr1 @ Node s p' a' gc' fc' # fr2) t"
  by (simp add: contains_state_def)

section \<open>The loaded data\<close>

lemma fold_load_person_no_movies:
  "(\<forall>pid p. people pid = Some p \<longrightarrow> person_movies p = {}) \<Longrightarrow>
   fold load_person rows people pid = Some p \<Longrightarrow> person_movies p = {}"
proof (induction rows arbitrary: people)
  case Nil
  then show ?case by simp
next
  case (Cons row rows)
  have "\<forall>pid p. load_person row people pid = Some p \<longrightarrow> person_movies p = {}"
    using Cons.prems(1) by (cases row) (auto simp: load_person_def)
  then show ?case using Cons.IH[of "load_person row people"] Cons.prems(2) by simp
qed

lemma load_star_consistent: "consistent db \<Longrightarrow> consistent (load_star row db)"
proof -
  assume c: "consistent db"
  obtain person_id movie_id where row: "row = (person_id, movie_id)" by (cases row)
  obtain people movies where db: "db = (people, movies)" by (cases db)
  show ?thesis
  proof (cases "people person_id")
    case None
    then show ?thesis using c by (simp add: load_star_def row db)
  next
    case (Some p)
    show ?thesis
    proof (cases "movies movie_id")
      case None
      then show ?thesis using c Some unfolding consistent_def row db load_star_def
        by (auto simp: Let_def split: if_splits)
    next
      case (Some m)
      then show ?thesis using c \<open>people person_id = Some p\<close> unfolding consistent_def row db load_star_def
        by (auto simp: Let_def split: if_splits)
    qed
  qed
qed

lemma fold_load_star_consistent: "consistent db \<Longrightarrow> consistent (fold load_star rows db)"
  by (induction rows arbitrary: db) (simp_all add: load_star_consistent)

lemma load_data_consistent: "consistent (load_data people_rows movie_rows star_rows)"
proof -
  have "consistent (fold load_person people_rows Map.empty, fold load_movie movie_rows Map.empty)"
    unfolding consistent_def using fold_load_person_no_movies[of Map.empty people_rows] by fastforce
  then show ?thesis unfolding load_data_def by (rule fold_load_star_consistent)
qed

text \<open>
  Whenever \<^verbatim>\<open>neighbors_for_person\<close> returns on loaded data, the person is their
  own co-star in each of their movies.
\<close>

lemma self_loop_when_neighbors_returned:
  assumes "load_data people_rows movie_rows star_rows = (people, movies)"
    and "people pid = Some p" and "m \<in> person_movies p"
    and "neighbors_for_person people movies pid = Inr N"
  shows "(m, pid) \<in> N"
proof -
  have c: "consistent (people, movies)" using load_data_consistent[of people_rows movie_rows star_rows] assms(1) by simp
  from assms(2,4) have all: "\<forall>movie_id\<in>person_movies p. movies movie_id \<noteq> None"
    and N: "N = (\<Union>movie_id \<in> person_movies p. (\<lambda>star. (movie_id, star)) ` (case movies movie_id of None \<Rightarrow> {} | Some m \<Rightarrow> movie_stars m))"
    by (auto simp: neighbors_for_person_def split: if_splits)
  from all assms(3) obtain mv where mv: "movies m = Some mv" by auto
  with c assms(2,3) have "pid \<in> movie_stars mv" unfolding consistent_def by auto
  then have "(m, pid) \<in> (\<lambda>star. (m, star)) ` (case movies m of None \<Rightarrow> {} | Some m \<Rightarrow> movie_stars m)"
    using mv by simp
  then show ?thesis unfolding N using assms(3) by (rule UN_I[rotated])
qed


text \<open>
  Claim C10. The claim: for every person of the loaded graph and every movie in the
  person's movie set, \<^verbatim>\<open>neighbors_for_person\<close> returns a set that contains the
  pair of that movie and the person. The code at a row of \<^verbatim>\<open>stars.csv\<close> whose
  person is known and whose movie is not: \<^verbatim>\<open>load_data\<close> adds the movie id to the
  person's movie set before the lookup of the movie raises the \<^verbatim>\<open>KeyError\<close> that
  is then swallowed, and \<^verbatim>\<open>neighbors_for_person\<close> for that person raises
  \<^verbatim>\<open>KeyError\<close> instead of returning a set.
\<close>

theorem neighbors_for_person_raises_after_load:
  "(case load_data [(''1'', ''Ann'', ''1960'')] [] [(''1'', ''9'')] of
      (people, movies) \<Rightarrow>
        (\<exists>p. people ''1'' = Some p \<and> ''9'' \<in> person_movies p)
        \<and> neighbors_for_person people movies ''1'' = Inl KeyError)"
  by (simp add: load_data_def load_person_def load_star_def neighbors_for_person_def)

lemma neighbors_for_person_example:
  "(case load_data [(''1'', ''Ann'', ''1960''), (''2'', ''Bob'', ''1961'')] [(''9'', ''Film'', ''1990'')]
           [(''1'', ''9''), (''2'', ''9''), (''3'', ''9'')] of
      (people, movies) \<Rightarrow>
        neighbors_for_person people movies ''1'' = Inr {(''9'', ''1''), (''9'', ''2'')})"
  by (auto simp add: load_data_def load_person_def load_movie_def load_star_def neighbors_for_person_def)

section \<open>The FIFO search finds a shortest path\<close>

subsection \<open>Distance\<close>

lemma distance_le: "connects nbrs s p t \<Longrightarrow> distance nbrs s t \<le> length p"
  unfolding distance_def by (rule Least_le) blast

lemma distance_path:
  assumes "reachable nbrs s t"
  shows "\<exists>p. connects nbrs s p t \<and> length p = distance nbrs s t"
proof -
  from assms obtain p where "connects nbrs s p t" unfolding reachable_def ..
  then have "\<exists>k. \<exists>p. connects nbrs s p t \<and> length p = k" by blast
  then show ?thesis unfolding distance_def by (rule LeastI_ex)
qed

lemma distance_step:
  assumes "reachable nbrs s u" "edge nbrs u m t"
  shows "distance nbrs s t \<le> Suc (distance nbrs s u)"
proof -
  from distance_path[OF assms(1)] obtain p where p: "connects nbrs s p u" "length p = distance nbrs s u"
    by blast
  from connects_snoc[OF p(1) assms(2)] have "distance nbrs s t \<le> length (p @ [(Some m, t)])"
    by (rule distance_le)
  then show ?thesis using p(2) by simp
qed

lemma distance_pred:
  assumes r: "reachable nbrs s t" and d: "distance nbrs s t = Suc k"
  shows "\<exists>u m. reachable nbrs s u \<and> distance nbrs s u = k \<and> edge nbrs u m t"
proof -
  from distance_path[OF r] d obtain p where p: "connects nbrs s p t" "length p = Suc k" by auto
  then obtain q x where pq: "p = q @ [x]" by (cases p rule: rev_cases) auto
  obtain a t' where x: "x = (a, t')" by (cases x)
  from p(1) have vq: "valid_path nbrs s q" and vx: "valid_path nbrs (path_end s q) [(a, t')]"
    and e: "t' = t"
    unfolding pq x connects_def by (auto simp: valid_path_append split: option.splits)
  from vx obtain m where m: "a = Some m" "edge nbrs (path_end s q) m t'" by (auto split: option.splits)
  let ?u = "path_end s q"
  have cq: "connects nbrs s q ?u" using vq by (simp add: connects_def)
  then have ru: "reachable nbrs s ?u" by (rule connects_reachable)
  have "length q = k" using p(2) pq by simp
  with distance_le[OF cq] have le: "distance nbrs s ?u \<le> k" by simp
  have "Suc k \<le> Suc (distance nbrs s ?u)" using distance_step[OF ru m(2)] d e by simp
  with le have "distance nbrs s ?u = k" by simp
  with ru m(2) e show ?thesis by blast
qed

lemma distance_self: "distance nbrs s s = 0"
proof -
  have "connects nbrs s [] s" by (simp add: connects_Nil)
  from distance_le[OF this] show ?thesis by simp
qed

subsection \<open>expand appends children\<close>

lemma expand_append:
  "\<exists>cs. expand mk n ex ns fr = fr @ cs \<and>
        (\<forall>c\<in>set cs. \<exists>m p. (m, p) \<in> set ns \<and> c = mk n m p \<and> p \<notin> ex \<and> p \<notin> state ` set fr)"
proof (induction ns arbitrary: fr)
  case Nil
  then show ?case by simp
next
  case (Cons x ns)
  obtain m p where x: "x = (m, p)" by (cases x)
  let ?fr = "if \<not> contains_state fr p \<and> p \<notin> ex then add fr (mk n m p) else fr"
  from Cons.IH[of ?fr] obtain cs where cs: "expand mk n ex ns ?fr = ?fr @ cs"
    and new: "\<forall>c\<in>set cs. \<exists>m p. (m, p) \<in> set ns \<and> c = mk n m p \<and> p \<notin> ex \<and> p \<notin> state ` set ?fr"
    by blast
  have e: "expand mk n ex (x # ns) fr = ?fr @ cs" unfolding x using cs by simp
  have sub: "set fr \<subseteq> set ?fr" by (auto simp: add_def)
  have new': "\<forall>c\<in>set cs. \<exists>m p. (m, p) \<in> set (x # ns) \<and> c = mk n m p \<and> p \<notin> ex \<and> p \<notin> state ` set fr"
  proof
    fix c assume "c \<in> set cs"
    with new obtain m' p' where mp: "(m', p') \<in> set ns" "c = mk n m' p'" "p' \<notin> ex" "p' \<notin> state ` set ?fr"
      by blast
    from mp(4) sub have "p' \<notin> state ` set fr" by blast
    moreover have "(m', p') \<in> set (x # ns)" using mp(1) by simp
    ultimately show "\<exists>m p. (m, p) \<in> set (x # ns) \<and> c = mk n m p \<and> p \<notin> ex \<and> p \<notin> state ` set fr"
      using mp(2,3) by blast
  qed
  show ?case
  proof (cases "\<not> contains_state fr p \<and> p \<notin> ex")
    case True
    then have f: "?fr = fr @ [mk n m p]" by (simp add: add_def)
    have "expand mk n ex (x # ns) fr = fr @ (mk n m p # cs)" using e f by simp
    moreover have "\<forall>c\<in>set (mk n m p # cs). \<exists>m p. (m, p) \<in> set (x # ns) \<and> c = mk n m p \<and> p \<notin> ex \<and> p \<notin> state ` set fr"
    proof
      fix c assume c: "c \<in> set (mk n m p # cs)"
      show "\<exists>m p. (m, p) \<in> set (x # ns) \<and> c = mk n m p \<and> p \<notin> ex \<and> p \<notin> state ` set fr"
      proof (cases "c = mk n m p")
        case True
        have "(m, p) \<in> set (x # ns)" unfolding x by simp
        moreover have "p \<notin> ex" "p \<notin> state ` set fr"
          using \<open>\<not> contains_state fr p \<and> p \<notin> ex\<close> by (simp_all add: contains_state_iff)
        ultimately show ?thesis using True by blast
      next
        case False
        with c have "c \<in> set cs" by simp
        with new' show ?thesis by blast
      qed
    qed
    ultimately show ?thesis by blast
  next
    case False
    have "?fr = fr" by (rule if_not_P) (rule notnotD, simp add: False)
    with e new' show ?thesis by auto
  qed
qed

subsection \<open>The level invariant of the FIFO search\<close>

lemma distance_0_source:
  assumes "reachable nbrs s v" "distance nbrs s v = 0"
  shows "v = s"
proof -
  from distance_path[OF assms(1)] assms(2) obtain p where "connects nbrs s p v" "length p = 0" by auto
  then show ?thesis by (simp add: connects_Nil)
qed

lemma depth_root: "parent n = None \<Longrightarrow> depth n = 0"
  unfolding depth_def by (subst path_back_sel) simp

lemma bfs_level_initial:
  assumes "state start = source" "parent start = None"
  shows "bfs_level nbrs source 0 (initial_state start)"
proof -
  have "depth start = 0" using assms(2) by (rule depth_root)
  moreover have "distance nbrs source (state start) = 0" using assms(1) by (simp add: distance_self)
  moreover have "\<forall>v. reachable nbrs source v \<and> distance nbrs source v \<le> 0 \<longrightarrow> v = source"
    using distance_0_source by fastforce
  ultimately show ?thesis
    using assms(1) by (simp add: bfs_level_def initial_state_def add_def frontier_states_def)
qed

lemma bfs_level_upgrade:
  assumes inv: "search_inv nbrs source target st" and lv: "bfs_level nbrs source d st"
    and all: "\<forall>n\<in>set (frontier st). depth n = Suc d"
  shows "bfs_level nbrs source (Suc d) st"
proof -
  have l1: "\<forall>n\<in>set (frontier st). depth n = distance nbrs source (state n)"
    and l2: "sorted (map depth (frontier st))"
    and l3: "\<forall>v. reachable nbrs source v \<and> distance nbrs source v \<le> d \<longrightarrow>
                v \<in> explored st \<union> frontier_states st"
    using lv unfolding bfs_level_def by blast+
  have cl: "\<forall>u\<in>explored st. \<forall>a v. edge nbrs u a v \<longrightarrow> v \<in> explored st \<union> frontier_states st"
    using inv unfolding search_inv_def by blast
  have cover: "v \<in> explored st \<union> frontier_states st"
    if r: "reachable nbrs source v" and dv: "distance nbrs source v \<le> Suc d" for v
  proof (cases "distance nbrs source v \<le> d")
    case True
    with l3 r show ?thesis by blast
  next
    case False
    with dv have "distance nbrs source v = Suc d" by simp
    from distance_pred[OF r this] obtain u m where u: "reachable nbrs source u"
      "distance nbrs source u = d" "edge nbrs u m v" by blast
    have ud: "u \<in> explored st \<union> frontier_states st" using l3 u(1,2) by simp
    have "u \<notin> frontier_states st"
    proof
      assume "u \<in> frontier_states st"
      then obtain n where n: "n \<in> set (frontier st)" "state n = u"
        unfolding frontier_states_def by blast
      with l1 all u(2) show False by fastforce
    qed
    with ud have "u \<in> explored st" by simp
    with cl u(3) show ?thesis by blast
  qed
  show ?thesis unfolding bfs_level_def using l1 l2 all cover by auto
qed

lemma bfs_level_step:
  assumes mk: "makes_child mk"
    and inv: "search_inv nbrs source target st" and lv: "bfs_level nbrs source d st"
    and fr: "frontier st = n # fr'" and dn: "depth n = d"
    and ns: "nbrs (state n) = Inr ns"
  shows "bfs_level nbrs source d (next_state mk n ns fr' st)"
proof -
  let ?ex = "insert (state n) (explored st)"
  let ?st = "next_state mk n ns fr' st"
  have l1: "\<forall>n\<in>set (frontier st). depth n = distance nbrs source (state n) \<and> d \<le> depth n \<and> depth n \<le> d + 1"
    and l2: "sorted (map depth (frontier st))"
    and l3: "\<forall>v. reachable nbrs source v \<and> distance nbrs source v \<le> d \<longrightarrow>
                v \<in> explored st \<union> frontier_states st"
    using lv unfolding bfs_level_def by blast+
  from expand_append[of mk n ?ex ns fr'] obtain cs where
    cs: "expand mk n ?ex ns fr' = fr' @ cs"
    and new: "\<forall>c\<in>set cs. \<exists>m p. (m, p) \<in> set ns \<and> c = mk n m p \<and> p \<notin> ?ex \<and> p \<notin> state ` set fr'"
    by blast
  have fr_st: "frontier ?st = fr' @ cs" and ex_st: "explored ?st = ?ex"
    using cs by (simp_all add: next_state_def)
  have fs_old: "frontier_states st = insert (state n) (state ` set fr')"
    unfolding frontier_states_def fr by simp
  have fs_new: "frontier_states ?st = state ` set fr' \<union> state ` set cs"
    unfolding frontier_states_def fr_st by auto
  have rn: "reachable nbrs source (state n)"
    using inv fr unfolding search_inv_def by (auto intro: connects_reachable)
  have dist_n: "distance nbrs source (state n) = d" using l1 fr dn by simp
  have child: "depth c = Suc d \<and> distance nbrs source (state c) = Suc d" if c: "c \<in> set cs" for c
  proof -
    from new c obtain m p where mp: "(m, p) \<in> set ns" "c = mk n m p" "p \<notin> ?ex" "p \<notin> state ` set fr'"
      by blast
    have sc: "state c = p" using mk mp(2) unfolding makes_child_def by simp
    have dc: "depth c = Suc d" using depth_child[OF mk] mp(2) dn by simp
    have e: "edge nbrs (state n) m p" using ns mp(1) by (simp add: edge_def)
    have rp: "reachable nbrs source p" using reachable_step[OF rn e] .
    have up: "distance nbrs source p \<le> Suc d" using distance_step[OF rn e] dist_n by simp
    have "p \<notin> explored st \<union> frontier_states st" using mp(3,4) unfolding fs_old by simp
    with l3 rp have "\<not> distance nbrs source p \<le> d" by blast
    with up have "distance nbrs source p = Suc d" by simp
    with dc sc show ?thesis by simp
  qed
  have old: "depth x = distance nbrs source (state x) \<and> d \<le> depth x \<and> depth x \<le> d + 1"
    if "x \<in> set fr'" for x
  proof -
    have "x \<in> set (frontier st)" using that fr by simp
    with l1 show ?thesis by blast
  qed
  have j1: "\<forall>x\<in>set (fr' @ cs). depth x = distance nbrs source (state x) \<and> d \<le> depth x \<and> depth x \<le> d + 1"
    using old child by auto
  have "sorted (map depth fr')" using l2 fr by simp
  moreover have "sorted (map depth cs)"
  proof -
    have "map depth cs = replicate (length cs) (Suc d)"
      using child by (simp add: map_replicate_const[symmetric] cong: map_cong)
    then show ?thesis by (simp add: sorted_replicate)
  qed
  moreover have "\<forall>x\<in>set fr'. \<forall>c\<in>set cs. depth x \<le> depth c" using old child by fastforce
  ultimately have j2: "sorted (map depth (fr' @ cs))" by (simp add: sorted_append)
  have j3: "\<forall>v. reachable nbrs source v \<and> distance nbrs source v \<le> d \<longrightarrow>
                v \<in> ?ex \<union> (state ` set fr' \<union> state ` set cs)"
    using l3 unfolding fs_old by blast
  show ?thesis unfolding bfs_level_def fr_st ex_st fs_new using j1 j2 j3 by blast
qed

lemma bfs_level_next:
  assumes mk: "makes_child mk"
    and inv: "search_inv nbrs source target st" and lv: "\<exists>d. bfs_level nbrs source d st"
    and fr: "frontier st = n # fr'"
    and ns: "nbrs (state n) = Inr ns"
  shows "\<exists>d. bfs_level nbrs source d (next_state mk n ns fr' st)"
proof -
  from lv obtain d where d: "bfs_level nbrs source d st" ..
  then have l1: "\<forall>x\<in>set (frontier st). d \<le> depth x \<and> depth x \<le> d + 1"
    and l2: "sorted (map depth (frontier st))"
    unfolding bfs_level_def by blast+
  show ?thesis
  proof (cases "depth n = d")
    case True
    from bfs_level_step[OF mk inv d fr True ns] show ?thesis ..
  next
    case False
    with l1 fr have dn: "depth n = Suc d" by fastforce
    have "\<forall>x\<in>set (frontier st). depth x = Suc d"
    proof
      fix x assume x: "x \<in> set (frontier st)"
      have "depth n \<le> depth x" using l2 x unfolding fr by auto
      with l1 x dn show "depth x = Suc d" by fastforce
    qed
    from bfs_level_upgrade[OF inv d this] have "bfs_level nbrs source (Suc d) st" .
    from bfs_level_step[OF mk inv this fr dn ns] show ?thesis ..
  qed
qed

lemma QueueFrontier_remove_Cons:
  "fr \<noteq> [] \<Longrightarrow> QueueFrontier_remove fr = Inr (n, fr') \<Longrightarrow> fr = n # fr'"
  by (cases fr) (simp_all add: QueueFrontier_remove_def empty_frontier_def)

lemma FIFO_search_shortest:
  assumes fg: "finite_graph nbrs V" and sV: "source \<in> V"
    and rt: "reachable nbrs source target"
  shows "\<exists>p st. run_search FIFO nbrs source target = Some (Inr (Some p, st))
           \<and> connects nbrs source p target \<and> length p = distance nbrs source target"
proof -
  let ?start = "Node source None None 0 0 :: ('a, 'b) node"
  let ?I = "\<lambda>st. search_inv nbrs source target st \<and> (\<exists>d. bfs_level nbrs source d st)"
  let ?Q = "\<lambda>r. \<exists>p st. r = Inr (Some p, st) \<and> connects nbrs source p target
              \<and> length p = distance nbrs source target"
  have "\<exists>r. search_loop QueueFrontier_remove plain_child nbrs target (initial_state ?start) = Some r \<and> ?Q r"
  proof (rule search_loop_rule[where I = ?I and m = "\<lambda>st. card (V - explored st)",
        OF removes_one_queue])
    have "bfs_level nbrs source 0 (initial_state ?start)" by (rule bfs_level_initial) simp_all
    moreover have "search_inv nbrs source target (initial_state ?start)"
      by (rule search_inv_initial) simp_all
    ultimately show "?I (initial_state ?start)" by blast
  next
    fix st :: "('a, 'b) search_state" and n fr'
    assume I: "?I st" and r: "QueueFrontier_remove (frontier st) = Inr (n, fr')"
      and ne: "frontier st \<noteq> []" and t: "state n = target"
    have fr: "frontier st = n # fr'" using QueueFrontier_remove_Cons[OF ne r] .
    then have nin: "n \<in> set (frontier st)" by simp
    from I have inv: "search_inv nbrs source target st" ..
    from I obtain d where "bfs_level nbrs source d st" by blast
    then have "depth n = distance nbrs source (state n)" using nin unfolding bfs_level_def by blast
    then have "length (reconstruct n) = distance nbrs source target"
      using t by (simp add: length_reconstruct)
    with search_inv_found[OF inv nin t]
    show "?Q (Inr (Some (reconstruct n), st\<lparr>frontier := fr', nodes_explored := nodes_explored st + 1\<rparr>))"
      by simp
  next
    fix st :: "('a, 'b) search_state" and n fr'
    assume I: "?I st" and r: "QueueFrontier_remove (frontier st) = Inr (n, fr')"
      and ne: "frontier st \<noteq> []" and nt: "state n \<noteq> target"
    have fr: "frontier st = n # fr'" using QueueFrontier_remove_Cons[OF ne r] .
    from I have inv: "search_inv nbrs source target st" and lv: "\<exists>d. bfs_level nbrs source d st"
      by blast+
    have d: "distinct (map state (frontier st))" using inv unfolding search_inv_def by simp
    note rr = removes_one_result[OF removes_one_queue ne r]
    from rr(3)[OF d] have d': "distinct (map state fr')" and nf: "state n \<notin> state ` set fr'" by simp_all
    from search_inv_step[OF fg sV makes_child_plain inv rr(1) d' nf nt]
    obtain ns where ns: "nbrs (state n) = Inr ns"
      and inv': "search_inv nbrs source target (next_state plain_child n ns fr' st)"
      and dec: "card (V - explored (next_state plain_child n ns fr' st)) < card (V - explored st)"
      by blast
    from bfs_level_next[OF makes_child_plain inv lv fr ns] inv' dec ns
    show "\<exists>ns. nbrs (state n) = Inr ns \<and> ?I (next_state plain_child n ns fr' st)
           \<and> card (V - explored (next_state plain_child n ns fr' st)) < card (V - explored st)"
      by blast
  next
    fix st :: "('a, 'b) search_state"
    assume I: "?I st" and e: "frontier st = []"
    from I have inv: "search_inv nbrs source target st" ..
    from search_inv_exhausted[OF inv e] rt show "?Q (Inr (None, st))" by simp
  qed
  then show ?thesis unfolding run_search_def by auto
qed

text \<open>
  Claim C1. On a finite, connected, unweighted graph, for every source and target state
  in it, the search loop run with the FIFO frontier (\<^verbatim>\<open>QueueFrontier\<close>) returns a
  path from the source to the target whose number of edges is the graph distance from
  the source to the target.
\<close>

theorem FIFO_search_returns_shortest_path:
  assumes "finite_graph nbrs V" and "connected_graph nbrs V"
    and "source \<in> V" and "target \<in> V"
  shows "\<exists>p. shortest_path_FIFO nbrs source target = Some (Inr (Some p))
           \<and> connects nbrs source p target
           \<and> length p = distance nbrs source target"
proof -
  have "reachable nbrs source target" using assms(2,3,4) unfolding connected_graph_def by blast
  from FIFO_search_shortest[OF assms(1,3) this]
  obtain p st where r: "run_search FIFO nbrs source target = Some (Inr (Some p, st))"
    and c: "connects nbrs source p target" "length p = distance nbrs source target" by blast
  have "shortest_path_FIFO nbrs source target = Some (Inr (Some p))"
    unfolding shortest_path_FIFO_def using r by (rule returned_Inr)
  with c show ?thesis by blast
qed

theorem FIFO_search_returns_shortest_path_witness:
  "finite_graph example_graph {''A'', ''B'', ''C''}
   \<and> connected_graph example_graph {''A'', ''B'', ''C''}
   \<and> ''A'' \<in> {''A'', ''B'', ''C''} \<and> ''C'' \<in> {''A'', ''B'', ''C''}
   \<and> shortest_path_FIFO example_graph ''A'' ''C'' = Some (Inr (Some [(Some ''m3'', ''C'')]))
   \<and> distance example_graph ''A'' ''C'' = 1"
proof -
  have a: "''A'' \<in> {''A'', ''B'', ''C''}" and c: "''C'' \<in> {''A'', ''B'', ''C''}" by simp_all
  from FIFO_search_returns_shortest_path[OF example_graph_finite_ABC example_graph_connected a c]
  have "length [(Some ''m3'', ''C'')] = distance example_graph ''A'' ''C''"
    unfolding example_FIFO_A_C by simp
  then show ?thesis
    using example_graph_finite_ABC example_graph_connected example_FIFO_A_C by simp
qed

section \<open>The priority search with the zero heuristic\<close>

subsection \<open>Erasing the costs\<close>

lemma state_erase [simp]: "state (erase n) = state n"
  by (induction n rule: erase.induct) simp_all

lemma path_back_erase [simp]: "path_back (erase n) = path_back n"
  by (induction n rule: erase.induct) simp_all

lemma reconstruct_erase [simp]: "reconstruct (erase n) = reconstruct n"
  by (simp add: reconstruct_def)

lemma erase_Node: "erase (Node s p a gc fc) = Node s (map_option erase p) a 0 0"
  by (cases p) simp_all

lemma erase_astar_child: "erase (astar_child h n m p) = plain_child (erase n) m p"
  by (simp add: astar_child_def plain_child_def Let_def)

lemma contains_state_erase [simp]: "contains_state (map erase fr) s = contains_state fr s"
  by (simp add: contains_state_iff image_image)

lemma expand_erase:
  "map erase (expand (astar_child h) n ex ns fr) = expand plain_child (erase n) ex ns (map erase fr)"
proof (induction ns arbitrary: fr)
  case Nil
  then show ?case by simp
next
  case (Cons x ns)
  obtain m p where x: "x = (m, p)" by (cases x)
  show ?case unfolding x by (simp add: Cons.IH add_def erase_astar_child)
qed

lemma erase_next_state:
  "erase_state (next_state (astar_child h) n ns fr' st)
     = next_state plain_child (erase n) ns (map erase fr') (erase_state st)"
  by (simp add: erase_state_def next_state_def expand_erase)

subsection \<open>On a frontier sorted by cost the priority frontier is a queue\<close>

lemma AStarFrontier_remove_sorted:
  assumes ne: "fr \<noteq> []" and s: "sorted (map f_cost fr)"
  shows "AStarFrontier_remove fr = Inr (hd fr, tl fr)"
proof -
  from AStarFrontier_remove_first_min[OF ne] obtain i where i: "i < length fr"
    and r: "AStarFrontier_remove fr = Inr (fr ! i, take i fr @ drop (Suc i) fr)"
    and first: "\<forall>j<i. f_cost (fr ! i) < f_cost (fr ! j)" by blast
  have "i = 0"
  proof (rule ccontr)
    assume "i \<noteq> 0"
    then have "0 < i" by simp
    with first have lt: "f_cost (fr ! i) < f_cost (fr ! 0)" by blast
    have "map f_cost fr ! 0 \<le> map f_cost fr ! i"
      using s i by (intro sorted_nth_mono) simp_all
    with i ne lt show False by simp
  qed
  with r ne show ?thesis by (simp add: hd_conv_nth drop_Suc)
qed

lemma astar_level_sorted_f:
  assumes "astar_level st"
  shows "sorted (map f_cost (frontier st))"
proof -
  have f: "\<forall>n\<in>set (frontier st). f_cost n = int (depth n)" and s: "sorted (map depth (frontier st))"
    using assms unfolding astar_level_def by blast+
  have "f_cost (frontier st ! i) \<le> f_cost (frontier st ! j)"
    if "i \<le> j" "j < length (frontier st)" for i j
  proof -
    have "map depth (frontier st) ! i \<le> map depth (frontier st) ! j"
      using s that by (intro sorted_nth_mono) simp_all
    then have "depth (frontier st ! i) \<le> depth (frontier st ! j)" using that by simp
    moreover have "frontier st ! i \<in> set (frontier st)" "frontier st ! j \<in> set (frontier st)"
      using that by simp_all
    ultimately show ?thesis using f by simp
  qed
  then show ?thesis by (simp add: sorted_iff_nth_mono)
qed

lemma astar_level_initial: "astar_level (initial_state (Node source None None 0 0))"
  by (simp add: astar_level_def initial_state_def add_def depth_def)

lemma astar_level_step:
  assumes lv: "astar_level st" and fr: "frontier st = n # fr'"
  shows "astar_level (next_state (astar_child (\<lambda>x. 0)) n ns fr' st)"
proof -
  let ?mk = "astar_child (\<lambda>x. 0) :: ('a, 'b) node \<Rightarrow> 'b \<Rightarrow> 'a \<Rightarrow> ('a, 'b) node"
  let ?ex = "insert (state n) (explored st)"
  let ?st = "next_state ?mk n ns fr' st"
  have l1: "\<forall>x\<in>set (frontier st). g_cost x = int (depth x) \<and> f_cost x = int (depth x)"
    and l2: "sorted (map depth (frontier st))"
    and l3: "\<forall>x\<in>set (frontier st). depth x \<le> Suc (depth (hd (frontier st)))"
    using lv unfolding astar_level_def by blast+
  from expand_append[of ?mk n ?ex ns fr'] obtain cs where
    cs: "expand ?mk n ?ex ns fr' = fr' @ cs"
    and new: "\<forall>c\<in>set cs. \<exists>m p. (m, p) \<in> set ns \<and> c = ?mk n m p \<and> p \<notin> ?ex \<and> p \<notin> state ` set fr'"
    by blast
  have fr_st: "frontier ?st = fr' @ cs" using cs by (simp add: next_state_def)
  have gn: "g_cost n = int (depth n)" using l1 fr by simp
  have child: "depth c = Suc (depth n) \<and> g_cost c = int (depth c) \<and> f_cost c = int (depth c)"
    if c: "c \<in> set cs" for c
  proof -
    from new c obtain m p where mp: "c = ?mk n m p" by blast
    have dc: "depth c = Suc (depth n)" unfolding mp by (rule depth_child[OF makes_child_astar])
    have "g_cost c = g_cost n + 1" "f_cost c = g_cost n + 1"
      unfolding mp by (simp_all add: astar_child_def Let_def)
    with gn dc show ?thesis by simp
  qed
  have old: "g_cost x = int (depth x) \<and> f_cost x = int (depth x) \<and> depth n \<le> depth x
             \<and> depth x \<le> Suc (depth n)" if x: "x \<in> set fr'" for x
  proof -
    have xin: "x \<in> set (frontier st)" using x fr by simp
    have "depth n \<le> depth x" using l2 x unfolding fr by auto
    moreover have "depth x \<le> Suc (depth n)" using l3 xin unfolding fr by auto
    ultimately show ?thesis using l1 xin by blast
  qed
  have j1: "\<forall>x\<in>set (fr' @ cs). g_cost x = int (depth x) \<and> f_cost x = int (depth x)"
    using old child by auto
  have "sorted (map depth fr')" using l2 fr by simp
  moreover have "sorted (map depth cs)"
  proof -
    have "map depth cs = replicate (length cs) (Suc (depth n))"
      using child by (simp add: map_replicate_const[symmetric] cong: map_cong)
    then show ?thesis by (simp add: sorted_replicate)
  qed
  moreover have "\<forall>x\<in>set fr'. \<forall>c\<in>set cs. depth x \<le> depth c" using old child by fastforce
  ultimately have j2: "sorted (map depth (fr' @ cs))" by (simp add: sorted_append)
  have j3: "\<forall>x\<in>set (fr' @ cs). depth x \<le> Suc (depth (hd (fr' @ cs)))"
  proof
    fix x assume x: "x \<in> set (fr' @ cs)"
    then have ne: "fr' @ cs \<noteq> []" by auto
    then have "hd (fr' @ cs) \<in> set (fr' @ cs)" by (rule hd_in_set)
    then have "depth n \<le> depth (hd (fr' @ cs))" using old child by fastforce
    moreover have "depth x \<le> Suc (depth n)" using x old child by fastforce
    ultimately show "depth x \<le> Suc (depth (hd (fr' @ cs)))" by simp
  qed
  show ?thesis unfolding astar_level_def fr_st using j1 j2 j3 by blast
qed

lemma AStarFrontier_remove_level:
  assumes "astar_level st" "frontier st \<noteq> []" "AStarFrontier_remove (frontier st) = Inr (n, fr')"
  shows "frontier st = n # fr'"
proof -
  from AStarFrontier_remove_sorted[OF assms(2) astar_level_sorted_f[OF assms(1)]] assms(3)
  have "n = hd (frontier st)" "fr' = tl (frontier st)" by simp_all
  with assms(2) show ?thesis by simp
qed

subsection \<open>One step of the FIFO loop on an erased state\<close>

lemma FIFO_loop_empty:
  "frontier st = [] \<Longrightarrow>
   search_loop QueueFrontier_remove plain_child nbrs target (erase_state st)
     = Some (Inr (None, erase_state st))"
  by (subst search_loop.simps) (simp add: erase_state_def empty_frontier_def)

lemma FIFO_loop_found:
  "frontier st = n # fr' \<Longrightarrow> state n = target \<Longrightarrow>
   search_loop QueueFrontier_remove plain_child nbrs target (erase_state st)
     = Some (Inr (Some (reconstruct n),
                  erase_state (st\<lparr>frontier := fr', nodes_explored := nodes_explored st + 1\<rparr>)))"
  by (subst search_loop.simps)
     (simp add: erase_state_def empty_frontier_def QueueFrontier_remove_def)

lemma FIFO_loop_step:
  "frontier st = n # fr' \<Longrightarrow> state n \<noteq> target \<Longrightarrow> nbrs (state n) = Inr ns \<Longrightarrow>
   search_loop QueueFrontier_remove plain_child nbrs target (erase_state st)
     = search_loop QueueFrontier_remove plain_child nbrs target
         (erase_state (next_state (astar_child h) n ns fr' st))"
  by (subst search_loop.simps)
     (simp add: erase_state_def empty_frontier_def QueueFrontier_remove_def next_state_def expand_erase)

lemma A_STAR_zero_simulates_FIFO:
  assumes fg: "finite_graph nbrs V" and sV: "source \<in> V"
  shows "\<exists>r. run_A_STAR nbrs source target (\<lambda>x. 0) = Some r
           \<and> run_search FIFO nbrs source target = Some (erase_result r)"
proof -
  let ?mk = "astar_child (\<lambda>x. 0) :: ('a, 'b) node \<Rightarrow> 'b \<Rightarrow> 'a \<Rightarrow> ('a, 'b) node"
  let ?st0 = "initial_state (Node source None None 0 0) :: ('a, 'b) search_state"
  let ?F = "\<lambda>st. search_loop QueueFrontier_remove plain_child nbrs target (erase_state st)"
  let ?I = "\<lambda>st. search_inv nbrs source target st \<and> astar_level st \<and> ?F st = ?F ?st0"
  let ?Q = "\<lambda>r. ?F ?st0 = Some (erase_result r)"
  have "\<exists>r. search_loop AStarFrontier_remove ?mk nbrs target ?st0 = Some r \<and> ?Q r"
  proof (rule search_loop_rule[where I = ?I and m = "\<lambda>st. card (V - explored st)",
        OF removes_one_astar])
    have "search_inv nbrs source target ?st0" by (rule search_inv_initial) simp_all
    then show "?I ?st0" by (simp add: astar_level_initial)
  next
    fix st :: "('a, 'b) search_state" and n fr'
    assume I: "?I st" and r: "AStarFrontier_remove (frontier st) = Inr (n, fr')"
      and ne: "frontier st \<noteq> []" and t: "state n = target"
    from I have lv: "astar_level st" and eq: "?F st = ?F ?st0" by blast+
    have fr: "frontier st = n # fr'" using AStarFrontier_remove_level[OF lv ne r] .
    show "?Q (Inr (Some (reconstruct n), st\<lparr>frontier := fr', nodes_explored := nodes_explored st + 1\<rparr>))"
      unfolding eq[symmetric] FIFO_loop_found[OF fr t] by (simp add: erase_result_def)
  next
    fix st :: "('a, 'b) search_state" and n fr'
    assume I: "?I st" and r: "AStarFrontier_remove (frontier st) = Inr (n, fr')"
      and ne: "frontier st \<noteq> []" and nt: "state n \<noteq> target"
    from I have inv: "search_inv nbrs source target st" and lv: "astar_level st"
      and eq: "?F st = ?F ?st0" by blast+
    have fr: "frontier st = n # fr'" using AStarFrontier_remove_level[OF lv ne r] .
    have d: "distinct (map state (frontier st))" using inv unfolding search_inv_def by simp
    note rr = removes_one_result[OF removes_one_astar ne r]
    from rr(3)[OF d] have d': "distinct (map state fr')" and nf: "state n \<notin> state ` set fr'" by simp_all
    from search_inv_step[OF fg sV makes_child_astar inv rr(1) d' nf nt]
    obtain ns where ns: "nbrs (state n) = Inr ns"
      and inv': "search_inv nbrs source target (next_state ?mk n ns fr' st)"
      and dec: "card (V - explored (next_state ?mk n ns fr' st)) < card (V - explored st)"
      by blast
    have lv': "astar_level (next_state ?mk n ns fr' st)" using astar_level_step[OF lv fr] .
    have "?F (next_state ?mk n ns fr' st) = ?F ?st0"
      using FIFO_loop_step[where nbrs = nbrs and h = "\<lambda>x. 0", OF fr nt ns] eq by simp
    with ns inv' lv' dec
    show "\<exists>ns. nbrs (state n) = Inr ns \<and> ?I (next_state ?mk n ns fr' st)
           \<and> card (V - explored (next_state ?mk n ns fr' st)) < card (V - explored st)"
      by blast
  next
    fix st :: "('a, 'b) search_state"
    assume I: "?I st" and e: "frontier st = []"
    from I have eq: "?F st = ?F ?st0" by blast
    show "?Q (Inr (None, st))" unfolding eq[symmetric] FIFO_loop_empty[OF e]
      by (simp add: erase_result_def)
  qed
  moreover have "erase_state ?st0 = ?st0" by (simp add: erase_state_def initial_state_def add_def)
  ultimately show ?thesis unfolding run_A_STAR_def run_search_def by simp
qed

lemma returned_erase_result: "returned (Some (erase_result r)) = returned (Some r)"
  by (cases r) (auto simp: returned_def erase_result_def)

lemma A_STAR_zero_eq_FIFO:
  assumes "finite_graph nbrs V" and "source \<in> V"
  shows "shortest_path_A_STAR nbrs source target (\<lambda>x. 0) = shortest_path_FIFO nbrs source target"
proof -
  from A_STAR_zero_simulates_FIFO[OF assms, of target] obtain r where
    "run_A_STAR nbrs source target (\<lambda>x. 0) = Some r"
    "run_search FIFO nbrs source target = Some (erase_result r)" by blast
  then show ?thesis
    unfolding shortest_path_A_STAR_def shortest_path_FIFO_def by (simp add: returned_erase_result)
qed

text \<open>
  Claim C3. On a finite graph (every edge costs 1: a child's \<^verbatim>\<open>g\<close> is its
  parent's plus one) and for a source in it, \<^verbatim>\<open>shortest_path_A_STAR\<close> with the
  heuristic that is constantly 0 and the FIFO search both return, and they return
  paths of the same length (or both return "no path"). The lemma
  \<open>A_STAR_zero_eq_FIFO\<close> above shows that they return the very same path.
\<close>

theorem priority_zero_heuristic_same_length_as_FIFO:
  assumes "finite_graph nbrs V" and "source \<in> V"
  shows "\<exists>p q. shortest_path_A_STAR nbrs source target (\<lambda>x. 0) = Some (Inr p)
           \<and> shortest_path_FIFO nbrs source target = Some (Inr q)
           \<and> map_option length p = map_option length q"
proof -
  from search_loop_total[OF assms removes_one_policy makes_child_plain,
      of "Node source None None 0 0" FIFO target]
  obtain q st where "run_search FIFO nbrs source target = Some (Inr (q, st))"
    unfolding run_search_def by auto
  then have "shortest_path_FIFO nbrs source target = Some (Inr q)"
    unfolding shortest_path_FIFO_def by (rule returned_Inr)
  then show ?thesis using A_STAR_zero_eq_FIFO[OF assms, of target] by simp
qed

theorem priority_zero_heuristic_same_length_as_FIFO_witness:
  "finite_graph example_graph {''A'', ''B'', ''C'', ''D''}
   \<and> ''A'' \<in> {''A'', ''B'', ''C'', ''D''}
   \<and> shortest_path_A_STAR example_graph ''A'' ''C'' (\<lambda>x. 0) = Some (Inr (Some [(Some ''m3'', ''C'')]))
   \<and> shortest_path_FIFO example_graph ''A'' ''C'' = Some (Inr (Some [(Some ''m3'', ''C'')]))
   \<and> map_option length (Some [(Some ''m3'', ''C'')]) = map_option length (Some [(Some ''m3'', ''C'')])"
proof -
  have m: "''A'' \<in> {''A'', ''B'', ''C'', ''D''}" by simp
  from priority_zero_heuristic_same_length_as_FIFO[OF example_graph_finite m, of "''C''"]
  show ?thesis using example_graph_finite example_A_STAR_A_C example_FIFO_A_C by simp
qed

end
